theory Spec2Isabelle
  imports Main
begin

section \<open>The existential pairwise filter (\<open>queryFilter\<close> of \<open>createTreeQueryFilter\<close>)\<close>

text \<open>
  Entities are opaque tokens of a type \<open>'e\<close>, the world handle is a value of a type \<open>'w\<close>,
  and the caller's condition is a function \<open>'e \<Rightarrow> 'e \<Rightarrow> 'w \<Rightarrow> bool\<close>.
  The closure \<open>queryFilter\<close> returned inside a filter node captures nothing but
  \<open>condition\<close>, so it is the function \<open>queryFilter condition\<close> below. Its result object
  \<open>{parents, children}\<close> is the pair \<open>(parents2, children2)\<close>.

  The inner \<open>for\<close> loop over \<open>children\<close> is \<open>scanChildren\<close>: it carries the flag
  \<open>someChildMatches\<close> and the output array \<open>children2\<close>, and \<open>break\<close> is the branch that
  returns without looking at the rest. The outer loop over \<open>parents\<close> is \<open>scanParents\<close>.
\<close>

fun scanChildren ::
  "('e \<Rightarrow> 'e \<Rightarrow> 'w \<Rightarrow> bool) \<Rightarrow> 'w \<Rightarrow> bool \<Rightarrow> 'e \<Rightarrow> 'e list \<Rightarrow> bool \<times> 'e list \<Rightarrow> bool \<times> 'e list"
where
  "scanChildren condition world skipCollectingChildren parentEid [] (someChildMatches, children2) =
     (someChildMatches, children2)"
| "scanChildren condition world skipCollectingChildren parentEid (childEid # rest) (someChildMatches, children2) =
     (let match = condition parentEid childEid world;
          someChildMatches' = (someChildMatches \<or> match)
      in if match
         then (if skipCollectingChildren
               then (someChildMatches', children2 @ [childEid])
               else scanChildren condition world skipCollectingChildren parentEid rest
                      (someChildMatches', children2 @ [childEid]))
         else scanChildren condition world skipCollectingChildren parentEid rest
                (someChildMatches', children2))"

fun scanParents ::
  "('e \<Rightarrow> 'e \<Rightarrow> 'w \<Rightarrow> bool) \<Rightarrow> 'w \<Rightarrow> bool \<Rightarrow> 'e list \<Rightarrow> 'e list \<Rightarrow> 'e list \<times> 'e list \<Rightarrow> 'e list \<times> 'e list"
where
  "scanParents condition world skipCollectingChildren [] children (parents2, children2) =
     (parents2, children2)"
| "scanParents condition world skipCollectingChildren (parentEid # rest) children (parents2, children2) =
     (let (someChildMatches, children2') =
            scanChildren condition world skipCollectingChildren parentEid children (False, children2);
          parents2' = (if someChildMatches then parents2 @ [parentEid] else parents2)
      in scanParents condition world skipCollectingChildren rest children (parents2', children2'))"

definition queryFilter ::
  "('e \<Rightarrow> 'e \<Rightarrow> 'w \<Rightarrow> bool) \<Rightarrow> 'e list \<Rightarrow> 'e list \<Rightarrow> 'w \<Rightarrow> bool \<Rightarrow> 'e list \<times> 'e list"
where
  "queryFilter condition parents children world skipCollectingChildren =
     scanParents condition world skipCollectingChildren parents children ([], [])"

text \<open>The children one parent contributes to \<open>children2\<close>: every match, or the first one only.\<close>

definition matchesOf :: "('e \<Rightarrow> 'e \<Rightarrow> 'w \<Rightarrow> bool) \<Rightarrow> 'w \<Rightarrow> bool \<Rightarrow> 'e list \<Rightarrow> 'e \<Rightarrow> 'e list" where
  "matchesOf condition world skipCollectingChildren children p =
     (if skipCollectingChildren
      then (case find (\<lambda>c. condition p c world) children of None \<Rightarrow> [] | Some c \<Rightarrow> [c])
      else filter (\<lambda>c. condition p c world) children)"


section \<open>Specifications as JavaScript values\<close>

text \<open>
  \<open>createTreeQuery\<close> and the filter constructors take their arguments untyped at run time:
  an argument is a trait (or query modifier; both are opaque tokens of a type \<open>'t\<close>), a raw
  array, or a filter node \<open>{components, queryFilter, childQueries, isFilter: true}\<close>.
  The field \<open>queryFilter\<close> of a filter node is the closure above, kept as the condition
  \<open>'c\<close> it captures. \<open>isFilter\<close> is the truthiness test \<open>node.isFilter\<close>, which only
  filter nodes pass.
\<close>

datatype ('t, 'c) jsvalue =
    Trait 't
  | Array "('t, 'c) jsvalue list"
  | QueryFilterNode "('t, 'c) jsvalue list" 'c "('t, 'c) jsvalue list"

fun isFilter :: "('t, 'c) jsvalue \<Rightarrow> bool" where
  "isFilter (QueryFilterNode cs condition qs) = True"
| "isFilter (Trait t) = False"
| "isFilter (Array vs) = False"

fun isArray :: "('t, 'c) jsvalue \<Rightarrow> bool" where
  "isArray (Array vs) = True"
| "isArray (Trait t) = False"
| "isArray (QueryFilterNode cs condition qs) = False"

text \<open>Every \<open>throw\<close> of the two source files.\<close>

datatype error =
    TreeQueryEmpty
  | NoFilter
  | UnexpectedFailure
  | TraitsNotArray
  | SyntaxError

subsection \<open>\<open>createTreeQueryFilter\<close>\<close>

text \<open>
  The loop over \<open>traits\<close> sorts the arguments into \<open>_components\<close> and \<open>childQueries\<close> and
  throws at a raw array. (\<open>traits\<close> is a rest parameter, hence always an array: the first
  \<open>throw\<close> of the source is never reached.)
\<close>

fun forTraits ::
  "('t, 'c) jsvalue list \<Rightarrow> ('t, 'c) jsvalue list \<times> ('t, 'c) jsvalue list \<Rightarrow>
   error + (('t, 'c) jsvalue list \<times> ('t, 'c) jsvalue list)"
where
  "forTraits [] (components, childQueries) = Inr (components, childQueries)"
| "forTraits (trait # rest) (components, childQueries) =
     (if isArray trait then Inl SyntaxError
      else if isFilter trait then forTraits rest (components, childQueries @ [trait])
      else forTraits rest (components @ [trait], childQueries))"

definition createTreeQueryFilter :: "'c \<Rightarrow> ('t, 'c) jsvalue list \<Rightarrow> error + ('t, 'c) jsvalue" where
  "createTreeQueryFilter condition traits =
     (case forTraits traits ([], []) of
        Inl e \<Rightarrow> Inl e
      | Inr (components, childQueries) \<Rightarrow> Inr (QueryFilterNode components condition childQueries))"

section \<open>The plan compiler: \<open>createTreeQuery\<close>\<close>

subsection \<open>Build-time state\<close>

text \<open>
  \<open>WipQuery\<close> objects are shared and mutated (their \<open>id\<close> is reassigned and their
  \<open>components\<close> pushed to while tuples already point at them), so they live in a heap:
  a list of objects, a reference being an index into it. \<open>genId\<close> is a counter:
  \<open>Math.random()\<close> is taken never to return the same number twice, as the source's
  comment says. The build state holds the four arrays the closure
  \<open>buildQueryRecursive\<close> writes to; \<open>childQueryObjects\<close> is one array shared by all
  levels of the recursion. A reference is only ever made by \<open>newObject\<close>, so \<open>heap st ! r\<close>
  is read within range.

  The \<open>components\<close> array of a filter node is also the \<open>components\<close> of the query object
  made for it. Components are pushed only for elements that are not filter nodes, and the
  \<open>childQueries\<close> that \<open>createTreeQueryFilter\<close> builds hold filter nodes only, so below the
  top level nothing is pushed and the sharing is not seen; the model gives each query
  object its own list.
\<close>

record ('t, 'c) WipQuery =
  wipId :: nat
  components :: "('t, 'c) jsvalue list"

record ('t, 'c) build =
  nextId :: nat
  heap :: "('t, 'c) WipQuery list"
  filterWithTuple :: "('c \<times> nat \<times> nat) list"
  finalQueries :: "nat list"
  childQueryObjects :: "(('t, 'c) jsvalue list \<times> nat) list"

definition initBuild :: "('t, 'c) build" where
  "initBuild = \<lparr>nextId = 0, heap = [], filterWithTuple = [], finalQueries = [], childQueryObjects = []\<rparr>"

definition genId :: "('t, 'c) build \<Rightarrow> nat \<times> ('t, 'c) build" where
  "genId st = (nextId st, st\<lparr>nextId := Suc (nextId st)\<rparr>)"

definition newObject :: "('t, 'c) WipQuery \<Rightarrow> ('t, 'c) build \<Rightarrow> nat \<times> ('t, 'c) build" where
  "newObject q st = (length (heap st), st\<lparr>heap := heap st @ [q]\<rparr>)"

definition pushComponent :: "nat \<Rightarrow> ('t, 'c) jsvalue \<Rightarrow> ('t, 'c) build \<Rightarrow> ('t, 'c) build" where
  "pushComponent r node st =
     st\<lparr>heap := (heap st)[r := (heap st ! r)\<lparr>components := components (heap st ! r) @ [node]\<rparr>]\<rparr>"

definition setId :: "nat \<Rightarrow> nat \<Rightarrow> ('t, 'c) build \<Rightarrow> ('t, 'c) build" where
  "setId r i st = st\<lparr>heap := (heap st)[r := (heap st ! r)\<lparr>wipId := i\<rparr>]\<rparr>"

definition pushFinalQuery :: "nat \<Rightarrow> ('t, 'c) build \<Rightarrow> ('t, 'c) build" where
  "pushFinalQuery r st = st\<lparr>finalQueries := finalQueries st @ [r]\<rparr>"

subsection \<open>\<open>buildQueryRecursive\<close>\<close>

text \<open>
  \<open>forNodes\<close> is the loop \<open>for (idx = 0; idx < queryLen; idx++)\<close> over one level of the
  specification; it returns the flag \<open>nextNodeFind\<close> with the state.
\<close>

fun forNodes ::
  "('t, 'c) jsvalue list \<Rightarrow> nat \<Rightarrow> bool \<Rightarrow> ('t, 'c) build \<Rightarrow> bool \<times> ('t, 'c) build"
where
  "forNodes [] nextParentQuery nextNodeFind st = (nextNodeFind, st)"
| "forNodes (node # rest) nextParentQuery nextNodeFind st =
     (case node of
        QueryFilterNode nodeComponents condition nodeChildQueries \<Rightarrow>
          (let nextNodeFind' = (nextNodeFind \<or> nodeComponents \<noteq> []);
               (i, st1) = genId st;
               (nextChildQuery, st2) = newObject \<lparr>wipId = i, components = nodeComponents\<rparr> st1;
               st3 = pushFinalQuery nextChildQuery st2;
               st4 = (if nodeChildQueries \<noteq> []
                      then st3\<lparr>childQueryObjects :=
                                 childQueryObjects st3 @ [(nodeChildQueries, nextChildQuery)]\<rparr>
                      else st3);
               st5 = st4\<lparr>filterWithTuple :=
                           filterWithTuple st4 @ [(condition, nextParentQuery, nextChildQuery)]\<rparr>
           in forNodes rest nextParentQuery nextNodeFind' st5)
      | _ \<Rightarrow> forNodes rest nextParentQuery nextNodeFind (pushComponent nextParentQuery node st))"

text \<open>
  The recursion. \<open>forChildQueryObjects\<close> is the loop
  \<open>for (const {children, queryObject} of childQueryObjects)\<close>: JavaScript's array iterator
  keeps an index and compares it with the array's current length at every step, and the
  array it walks is the shared one that each recursive call empties first
  (\<open>childQueryObjects.length = 0\<close>) and refills. The recursion is on the state, so both
  functions take fuel; \<open>None\<close> means the fuel ran out.
\<close>

fun buildQueryRecursive ::
  "nat \<Rightarrow> ('t, 'c) jsvalue list \<Rightarrow> bool \<Rightarrow> nat option \<Rightarrow> ('t, 'c) build \<Rightarrow> ('t, 'c) build option"
and forChildQueryObjects ::
  "nat \<Rightarrow> nat \<Rightarrow> bool \<Rightarrow> ('t, 'c) build \<Rightarrow> ('t, 'c) build option"
where
  "buildQueryRecursive 0 query foundNodeComponents parentQueryObject st = None"
| "buildQueryRecursive (Suc fuel) query foundNodeComponents parentQueryObject st =
     (let st0 = st\<lparr>childQueryObjects := []\<rparr>;
          parentQueryPassed = (parentQueryObject \<noteq> None);
          (nextParentQuery, st1) =
            (case parentQueryObject of
               Some r \<Rightarrow> (r, st0)
             | None \<Rightarrow> (let (i, s) = genId st0 in newObject \<lparr>wipId = i, components = []\<rparr> s));
          (nextNodeFind, st2) = forNodes query nextParentQuery False st1;
          st3 =
            (if components (heap st2 ! nextParentQuery) = [] \<and> query \<noteq> [] \<and> \<not> foundNodeComponents
             then (let (i, s) = genId st2 in pushFinalQuery nextParentQuery (setId nextParentQuery i s))
             else if components (heap st2 ! nextParentQuery) \<noteq> [] \<and> \<not> parentQueryPassed
             then pushFinalQuery nextParentQuery st2
             else st2)
      in forChildQueryObjects fuel 0 nextNodeFind st3)"
| "forChildQueryObjects 0 idx nextNodeFind st = None"
| "forChildQueryObjects (Suc fuel) idx nextNodeFind st =
     (if idx < length (childQueryObjects st)
      then (case childQueryObjects st ! idx of
              (children, queryObject) \<Rightarrow>
                (case buildQueryRecursive fuel children nextNodeFind (Some queryObject) st of
                   None \<Rightarrow> None
                 | Some st' \<Rightarrow> forChildQueryObjects fuel (Suc idx) nextNodeFind st'))
      else Some st)"

subsection \<open>The node tree\<close>

text \<open>
  An \<open>EvalNode\<close> object is known by its id (\<open>nodeStore\<close> has one object per id), so an edge
  refers to its two nodes by id, and an entry \<open>{edge, node}\<close> of \<open>children\<close> is the edge
  (\<open>node\<close> is the edge's \<open>childNode\<close>). \<open>queryHash\<close> is the field \<open>query\<close>: the result of
  \<open>queryById.get\<close>, \<open>None\<close> for \<open>undefined\<close>. \<open>filter'\<close> is the field \<open>filter\<close>.
\<close>

record 'c EvalEdge =
  filter' :: 'c
  parentNode :: nat
  childNode :: nat

record ('c, 'h, 'e) EvalNode =
  nodeId :: nat
  children :: "'c EvalEdge list"
  queryHash :: "'h option"
  updateList :: "'e list"

text \<open>
  One turn of the loop \<open>for (const [filter, tuple] of filterWithTuple)\<close>. The ids are read
  through the heap, after the build has finished.
\<close>

definition linkTuple ::
  "('t, 'c) WipQuery list \<Rightarrow> (nat \<rightharpoonup> 'h) \<Rightarrow> (nat \<rightharpoonup> ('c, 'h, 'e) EvalNode) \<Rightarrow> 'c \<times> nat \<times> nat \<Rightarrow>
   (nat \<rightharpoonup> ('c, 'h, 'e) EvalNode)"
where
  "linkTuple objs queryById nodeStore entry =
     (case entry of
        (condition, parent, child) \<Rightarrow>
          (let parentId = wipId (objs ! parent);
               childId = wipId (objs ! child);
               childQuery = queryById childId;
               parentQuery = queryById parentId;
               pNode =
                 (case nodeStore parentId of
                    Some n \<Rightarrow> n
                  | None \<Rightarrow> \<lparr>nodeId = parentId, children = [], queryHash = parentQuery, updateList = []\<rparr>);
               nodeStore1 = nodeStore(parentId \<mapsto> pNode)
           in (case nodeStore1 childId of
                 Some n \<Rightarrow> nodeStore1
               | None \<Rightarrow>
                   (let cNode = \<lparr>nodeId = childId, children = [], queryHash = childQuery, updateList = []\<rparr>;
                        edge = \<lparr>filter' = condition, parentNode = parentId, childNode = childId\<rparr>
                    in nodeStore1(parentId \<mapsto> pNode\<lparr>children := children pNode @ [edge]\<rparr>,
                                  childId \<mapsto> cNode)))))"

definition childrenOf :: "(nat \<rightharpoonup> ('c, 'h, 'e) EvalNode) \<Rightarrow> nat \<Rightarrow> 'c EvalEdge list" where
  "childrenOf nodeStore n = (case nodeStore n of Some node \<Rightarrow> children node | None \<Rightarrow> [])"

text \<open>
  The flattening loop \<open>while (nodeStack.length > 0)\<close>: pop the last node, push its children
  and record their edges. It ends on a tree only, so it takes fuel.
\<close>

fun traverse ::
  "nat \<Rightarrow> (nat \<rightharpoonup> ('c, 'h, 'e) EvalNode) \<Rightarrow> nat list \<Rightarrow> 'c EvalEdge list \<Rightarrow> 'c EvalEdge list option"
where
  "traverse 0 nodeStore nodeStack edges = None"
| "traverse (Suc fuel) nodeStore nodeStack edges =
     (if nodeStack = [] then Some edges
      else (let node = last nodeStack;
                nodeStack' = butlast nodeStack
            in traverse fuel nodeStore
                 (nodeStack' @ map childNode (childrenOf nodeStore node))
                 (edges @ childrenOf nodeStore node)))"

subsection \<open>The compiled query\<close>

text \<open>
  What the closure returned by \<open>createTreeQuery\<close> keeps: the flattened edges, the root
  node, the \<open>EvalNode\<close> objects the edges point to (with their mutable \<open>updateList\<close>), the
  set \<open>queriesComputed\<close> and the array \<open>emptyResultsArr\<close>.
\<close>

record ('c, 'h, 'e) TreeQuery =
  edgesFlattened :: "'c EvalEdge list"
  rootNode :: nat
  nodes :: "nat \<rightharpoonup> ('c, 'h, 'e) EvalNode"
  queriesComputed :: "nat set"
  emptyResultsArr :: "'e list"

text \<open>
  \<open>cacheQuery\<close> belongs to the entity store and is a parameter: it turns a list of
  components into a query hash.
\<close>

definition hashQueries ::
  "(('t, 'c) jsvalue list \<Rightarrow> 'h) \<Rightarrow> ('t, 'c) WipQuery list \<Rightarrow> nat list \<Rightarrow> (nat \<rightharpoonup> 'h)"
where
  "hashQueries cacheQuery objs final =
     foldl (\<lambda>queryById r. queryById(wipId (objs ! r) \<mapsto> cacheQuery (components (objs ! r))))
       Map.empty final"

definition createTreeQuery ::
  "(('t, 'c) jsvalue list \<Rightarrow> 'h) \<Rightarrow> nat \<Rightarrow> ('t, 'c) jsvalue list \<Rightarrow> (error + ('c, 'h, 'e) TreeQuery) option"
where
  "createTreeQuery cacheQuery fuel queryTree =
     (if queryTree = [] then Some (Inl TreeQueryEmpty)
      else (case buildQueryRecursive fuel queryTree False None initBuild of
              None \<Rightarrow> None
            | Some st \<Rightarrow>
                (let queryById = hashQueries cacheQuery (heap st) (finalQueries st)
                 in (case filterWithTuple st of
                       [] \<Rightarrow> Some (Inl NoFilter)
                     | (filter0, parent0, child0) # _ \<Rightarrow>
                         (let rootId = wipId (heap st ! parent0);
                              nodeStore = foldl (linkTuple (heap st) queryById) Map.empty (filterWithTuple st)
                          in (case nodeStore rootId of
                                None \<Rightarrow> Some (Inl UnexpectedFailure)
                              | Some root \<Rightarrow>
                                  (case traverse fuel nodeStore [rootId] [] of
                                     None \<Rightarrow> None
                                   | Some edges \<Rightarrow>
                                       Some (Inr \<lparr>edgesFlattened = rev edges,
                                                  rootNode = rootId,
                                                  nodes = nodeStore,
                                                  queriesComputed = {},
                                                  emptyResultsArr = []\<rparr>))))))))"

section \<open>The executor\<close>

text \<open>
  The world handle: \<open>query\<close> is the store's lookup by query hash (it is handed whatever
  \<open>node.query\<close> holds), \<open>entities\<close> stands for everything else a condition may read.
\<close>

record ('h, 'e, 's) World =
  query :: "'h option \<Rightarrow> 'e list"
  entities :: 's

definition nodeList :: "('c, 'h, 'e) TreeQuery \<Rightarrow> nat \<Rightarrow> 'e list" where
  "nodeList tq n = (case nodes tq n of Some node \<Rightarrow> updateList node | None \<Rightarrow> [])"

definition nodeQuery :: "('c, 'h, 'e) TreeQuery \<Rightarrow> nat \<Rightarrow> 'h option" where
  "nodeQuery tq n = (case nodes tq n of Some node \<Rightarrow> queryHash node | None \<Rightarrow> None)"

definition setList :: "nat \<Rightarrow> 'e list \<Rightarrow> ('c, 'h, 'e) TreeQuery \<Rightarrow> ('c, 'h, 'e) TreeQuery" where
  "setList n l tq =
     (case nodes tq n of
        Some node \<Rightarrow> tq\<lparr>nodes := (nodes tq)(n \<mapsto> node\<lparr>updateList := l\<rparr>)\<rparr>
      | None \<Rightarrow> tq)"

text \<open>\<open>if (!queriesComputed.has(node)) { node.updateList = world.query(node.query); ... }\<close>\<close>

definition computeQuery ::
  "('h, 'e, 's) World \<Rightarrow> nat \<Rightarrow> ('c, 'h, 'e) TreeQuery \<Rightarrow> ('c, 'h, 'e) TreeQuery"
where
  "computeQuery world n tq =
     (if n \<in> queriesComputed tq then tq
      else (setList n (query world (nodeQuery tq n)) tq)
             \<lparr>queriesComputed := insert n (queriesComputed tq)\<rparr>)"

text \<open>
  The body of the loop over \<open>edgesFlattened\<close> for one edge: \<open>narrow\<close> is the state after
  both queries are computed, with the filter's result; \<open>evalEdge\<close> is \<open>Inl\<close> at the early
  \<open>return emptyResultsArr\<close> and \<open>Inr\<close> when the loop goes on with the narrowed lists.
\<close>

definition narrow ::
  "('e \<Rightarrow> 'e \<Rightarrow> ('h, 'e, 's) World \<Rightarrow> bool) EvalEdge \<Rightarrow> ('h, 'e, 's) World \<Rightarrow>
   ('e \<Rightarrow> 'e \<Rightarrow> ('h, 'e, 's) World \<Rightarrow> bool, 'h, 'e) TreeQuery \<Rightarrow>
   ('e \<Rightarrow> 'e \<Rightarrow> ('h, 'e, 's) World \<Rightarrow> bool, 'h, 'e) TreeQuery \<times> 'e list \<times> 'e list"
where
  "narrow e world tq =
     (let tq1 = computeQuery world (parentNode e) tq;
          tq2 = computeQuery world (childNode e) tq1
      in (tq2,
          queryFilter (filter' e) (nodeList tq2 (parentNode e)) (nodeList tq2 (childNode e)) world
            (childrenOf (nodes tq2) (childNode e) = [])))"

definition evalEdge ::
  "('e \<Rightarrow> 'e \<Rightarrow> ('h, 'e, 's) World \<Rightarrow> bool) EvalEdge \<Rightarrow> ('h, 'e, 's) World \<Rightarrow>
   ('e \<Rightarrow> 'e \<Rightarrow> ('h, 'e, 's) World \<Rightarrow> bool, 'h, 'e) TreeQuery \<Rightarrow>
   ('e \<Rightarrow> 'e \<Rightarrow> ('h, 'e, 's) World \<Rightarrow> bool, 'h, 'e) TreeQuery +
   ('e \<Rightarrow> 'e \<Rightarrow> ('h, 'e, 's) World \<Rightarrow> bool, 'h, 'e) TreeQuery"
where
  "evalEdge e world tq =
     (case narrow e world tq of
        (tq2, parents2, children2) \<Rightarrow>
          if parents2 = [] \<or> children2 = [] then Inl tq2
          else Inr (setList (childNode e) children2 (setList (parentNode e) parents2 tq2)))"

fun forEdges ::
  "('e \<Rightarrow> 'e \<Rightarrow> ('h, 'e, 's) World \<Rightarrow> bool) EvalEdge list \<Rightarrow> ('h, 'e, 's) World \<Rightarrow>
   ('e \<Rightarrow> 'e \<Rightarrow> ('h, 'e, 's) World \<Rightarrow> bool, 'h, 'e) TreeQuery \<Rightarrow>
   ('e \<Rightarrow> 'e \<Rightarrow> ('h, 'e, 's) World \<Rightarrow> bool, 'h, 'e) TreeQuery +
   ('e \<Rightarrow> 'e \<Rightarrow> ('h, 'e, 's) World \<Rightarrow> bool, 'h, 'e) TreeQuery"
where
  "forEdges [] world tq = Inr tq"
| "forEdges (e # es) world tq =
     (case evalEdge e world tq of
        Inl tq' \<Rightarrow> Inl tq'
      | Inr tq' \<Rightarrow> forEdges es world tq')"

text \<open>
  The returned closure \<open>(world) => ...\<close>: its result and the state it leaves behind.
\<close>

definition runTreeQuery ::
  "('e \<Rightarrow> 'e \<Rightarrow> ('h, 'e, 's) World \<Rightarrow> bool, 'h, 'e) TreeQuery \<Rightarrow> ('h, 'e, 's) World \<Rightarrow>
   'e list \<times> ('e \<Rightarrow> 'e \<Rightarrow> ('h, 'e, 's) World \<Rightarrow> bool, 'h, 'e) TreeQuery"
where
  "runTreeQuery tq world =
     (let tq0 = tq\<lparr>queriesComputed := {}, emptyResultsArr := []\<rparr>
      in (case forEdges (edgesFlattened tq0) world tq0 of
            Inl tq' \<Rightarrow> (emptyResultsArr tq', tq')
          | Inr tq' \<Rightarrow> (nodeList tq' (rootNode tq'), tq')))"


section \<open>Notions used in the statements and proofs\<close>

text \<open>The state a run of the loop ends in, at the early return or at the end.\<close>

definition stateOf :: "'a + 'a \<Rightarrow> 'a" where
  "stateOf r = (case r of Inl s \<Rightarrow> s | Inr s \<Rightarrow> s)"

definition candidates ::
  "('h, 'e, 's) World \<Rightarrow> ('c, 'h, 'e) TreeQuery \<Rightarrow> nat \<Rightarrow> 'e list" where
  "candidates world tq n =
     (if n \<in> queriesComputed tq then nodeList tq n else query world (nodeQuery tq n))"

definition touched :: "'c EvalEdge list \<Rightarrow> nat set" where
  "touched es = parentNode ` set es \<union> childNode ` set es"

definition agree :: "nat set \<Rightarrow> ('c, 'h, 'e) TreeQuery \<Rightarrow> ('c, 'h, 'e) TreeQuery \<Rightarrow> bool" where
  "agree K a b \<longleftrightarrow>
     edgesFlattened a = edgesFlattened b \<and> rootNode a = rootNode b \<and>
     queriesComputed a = queriesComputed b \<and> emptyResultsArr a = emptyResultsArr b \<and>
     (\<forall>n. nodeQuery a n = nodeQuery b n) \<and>
     (\<forall>n. childrenOf (nodes a) n = childrenOf (nodes b) n) \<and>
     (\<forall>n. (nodes a n = None) = (nodes b n = None)) \<and>
     (\<forall>n. n \<in> queriesComputed a \<or> n \<notin> K \<longrightarrow> nodeList a n = nodeList b n)"

text \<open>What a run leaves untouched, and what it has computed when it reaches the end.\<close>

definition keeps :: "nat set \<Rightarrow> ('c, 'h, 'e) TreeQuery \<Rightarrow> ('c, 'h, 'e) TreeQuery \<Rightarrow> bool" where
  "keeps K a b \<longleftrightarrow>
     edgesFlattened a = edgesFlattened b \<and> rootNode a = rootNode b \<and>
     emptyResultsArr a = emptyResultsArr b \<and>
     (\<forall>n. nodeQuery a n = nodeQuery b n) \<and>
     (\<forall>n. childrenOf (nodes a) n = childrenOf (nodes b) n) \<and>
     (\<forall>n. (nodes a n = None) = (nodes b n = None)) \<and>
     (\<forall>n. n \<notin> K \<longrightarrow> nodeList a n = nodeList b n)"

definition reset :: "('c, 'h, 'e) TreeQuery \<Rightarrow> ('c, 'h, 'e) TreeQuery" where
  "reset tq = tq\<lparr>queriesComputed := {}, emptyResultsArr := []\<rparr>"

definition chainPlan ::
  "nat \<Rightarrow> nat \<Rightarrow> nat \<Rightarrow> 'c \<Rightarrow> 'c \<Rightarrow> 'h \<Rightarrow> 'h \<Rightarrow> 'h \<Rightarrow> ('c, 'h, 'e) TreeQuery" where
  "chainPlan r m l P1 P2 hr hm hl =
     \<lparr>edgesFlattened = [\<lparr>filter' = P2, parentNode = m, childNode = l\<rparr>,
                        \<lparr>filter' = P1, parentNode = r, childNode = m\<rparr>],
      rootNode = r,
      nodes = [r \<mapsto> \<lparr>nodeId = r, children = [\<lparr>filter' = P1, parentNode = r, childNode = m\<rparr>],
                      queryHash = Some hr, updateList = []\<rparr>,
               m \<mapsto> \<lparr>nodeId = m, children = [\<lparr>filter' = P2, parentNode = m, childNode = l\<rparr>],
                      queryHash = Some hm, updateList = []\<rparr>,
               l \<mapsto> \<lparr>nodeId = l, children = [], queryHash = Some hl, updateList = []\<rparr>],
      queriesComputed = {},
      emptyResultsArr = []\<rparr>"

definition treeStore :: "nat \<Rightarrow> (nat \<rightharpoonup> ('c, 'h, 'e) EvalNode) \<Rightarrow> bool" where
  "treeStore root ns \<longleftrightarrow>
     (\<forall>n. \<forall>e \<in> set (childrenOf ns n). parentNode e = n \<and> childNode e \<in> dom ns \<and> childNode e \<noteq> root) \<and>
     (\<forall>n. distinct (map childNode (childrenOf ns n))) \<and>
     (\<forall>n n'. \<forall>e \<in> set (childrenOf ns n). \<forall>e' \<in> set (childrenOf ns n').
        childNode e = childNode e' \<longrightarrow> n = n')"

fun parentsFirst :: "'c EvalEdge list \<Rightarrow> bool" where
  "parentsFirst [] = True"
| "parentsFirst (e # es) = (parentNode e \<notin> childNode ` set (e # es) \<and> parentsFirst es)"

definition visitInv ::
  "nat \<Rightarrow> (nat \<rightharpoonup> ('c, 'h, 'e) EvalNode) \<Rightarrow> nat set \<Rightarrow> nat list \<Rightarrow> 'c EvalEdge list \<Rightarrow> bool" where
  "visitInv root ns X stack acc \<longleftrightarrow>
     distinct stack \<and> set stack \<inter> X = {} \<and>
     set acc = {e. \<exists>n \<in> X. e \<in> set (childrenOf ns n)} \<and>
     (\<forall>x \<in> X \<union> set stack. x = root \<or> (\<exists>e \<in> set acc. childNode e = x)) \<and>
     distinct (map childNode acc) \<and>
     parentsFirst acc"








text \<open>
  The part of \<open>buildQueryRecursive\<close> before its last loop: the flag \<open>nextNodeFind\<close> and the
  state the loop over \<open>childQueryObjects\<close> starts from.
\<close>

definition levelState ::
  "('t, 'c) jsvalue list \<Rightarrow> bool \<Rightarrow> nat option \<Rightarrow> ('t, 'c) build \<Rightarrow> bool \<times> ('t, 'c) build" where
  "levelState q found pqo st =
     (let st0 = st\<lparr>childQueryObjects := []\<rparr>;
          (nextParentQuery, st1) =
            (case pqo of
               Some r \<Rightarrow> (r, st0)
             | None \<Rightarrow> (let (i, s) = genId st0 in newObject \<lparr>wipId = i, components = []\<rparr> s));
          (nextNodeFind, st2) = forNodes q nextParentQuery False st1;
          st3 =
            (if components (heap st2 ! nextParentQuery) = [] \<and> q \<noteq> [] \<and> \<not> found
             then (let (i, s) = genId st2 in pushFinalQuery nextParentQuery (setId nextParentQuery i s))
             else if components (heap st2 ! nextParentQuery) \<noteq> [] \<and> pqo = None
             then pushFinalQuery nextParentQuery st2
             else st2)
      in (nextNodeFind, st3))"

subsection \<open>A worked example\<close>

text \<open>
  Entities and traits are numbers, the hash of a query is the number of its components,
  and the condition holds when the child is the parent plus ten. \<open>exSpec\<close> is
  \<open>createTreeQuery(T0, F(T1, T2, F(T3, T4, T5)))\<close>. In \<open>exWorld\<close> the root query yields the
  entities 1 and 2, the middle query 11 and 13, the leaf query 21; \<open>exWorldNoLeaf\<close> is the
  same world with no leaf entity.
\<close>

definition exCond :: "nat \<Rightarrow> nat \<Rightarrow> (nat, nat, unit) World \<Rightarrow> bool" where
  "exCond p c w = (c = p + 10)"

definition exHash :: "(nat, nat \<Rightarrow> nat \<Rightarrow> (nat, nat, unit) World \<Rightarrow> bool) jsvalue list \<Rightarrow> nat" where
  "exHash cs = length cs"

definition exSpec :: "(nat, nat \<Rightarrow> nat \<Rightarrow> (nat, nat, unit) World \<Rightarrow> bool) jsvalue list" where
  "exSpec = [Trait 0, QueryFilterNode [Trait 1, Trait 2] exCond
                        [QueryFilterNode [Trait 3, Trait 4, Trait 5] exCond []]]"

definition exPlan :: "(nat \<Rightarrow> nat \<Rightarrow> (nat, nat, unit) World \<Rightarrow> bool, nat, nat) TreeQuery" where
  "exPlan = chainPlan 0 1 2 exCond exCond 1 2 3"

definition exWorld :: "(nat, nat, unit) World" where
  "exWorld = \<lparr>query = (\<lambda>h. if h = Some 1 then [1, 2] else if h = Some 2 then [11, 13]
                          else if h = Some 3 then [21] else []),
              entities = ()\<rparr>"

definition exWorldNoLeaf :: "(nat, nat, unit) World" where
  "exWorldNoLeaf = \<lparr>query = (\<lambda>h. if h = Some 1 then [1, 2] else if h = Some 2 then [11, 13] else []),
                    entities = ()\<rparr>"

section \<open>Properties of the filter\<close>

lemma scanChildren_eq:
  "scanChildren condition world skip p cs (some, acc) =
     (some \<or> (\<exists>c \<in> set cs. condition p c world),
      acc @ matchesOf condition world skip cs p)"
  by (induction cs arbitrary: some acc) (auto simp: matchesOf_def Let_def)

lemma scanParents_eq:
  "scanParents condition world skip ps cs (pacc, cacc) =
     (pacc @ filter (\<lambda>p. \<exists>c \<in> set cs. condition p c world) ps,
      cacc @ concat (map (matchesOf condition world skip cs) ps))"
  by (induction ps arbitrary: pacc cacc) (simp_all add: scanChildren_eq)

lemma queryFilter_eq:
  "queryFilter condition ps cs world skip =
     (filter (\<lambda>p. \<exists>c \<in> set cs. condition p c world) ps,
      concat (map (matchesOf condition world skip cs) ps))"
  by (simp add: queryFilter_def scanParents_eq)

lemma find_Some_member: "find P xs = Some x \<Longrightarrow> x \<in> set xs"
  by (induction xs) (auto split: if_splits)

lemma set_matchesOf_subset: "set (matchesOf condition world skip cs p) \<subseteq> set cs"
  by (auto simp: matchesOf_def split: option.splits dest: find_Some_member[OF sym])

lemma queryFilter_parents_subset:
  "set (fst (queryFilter condition ps cs world skip)) \<subseteq> set ps"
  by (simp add: queryFilter_eq)

lemma queryFilter_children_subset:
  "set (snd (queryFilter condition ps cs world skip)) \<subseteq> set cs"
  using set_matchesOf_subset[of condition world skip cs]
  by (auto simp: queryFilter_eq)


section \<open>Properties of the executor\<close>

lemma setList_simps:
  "nodeList (setList m l tq) n = (if n = m \<and> nodes tq m \<noteq> None then l else nodeList tq n)"
  "nodeQuery (setList m l tq) n = nodeQuery tq n"
  "childrenOf (nodes (setList m l tq)) n = childrenOf (nodes tq) n"
  "(nodes (setList m l tq) n = None) = (nodes tq n = None)"
  "queriesComputed (setList m l tq) = queriesComputed tq"
  "emptyResultsArr (setList m l tq) = emptyResultsArr tq"
  "edgesFlattened (setList m l tq) = edgesFlattened tq"
  "rootNode (setList m l tq) = rootNode tq"
  by (auto simp: setList_def nodeList_def nodeQuery_def childrenOf_def split: option.splits)

lemma computeQuery_simps:
  "nodeList (computeQuery w m tq) n =
     (if n = m \<and> m \<notin> queriesComputed tq \<and> nodes tq m \<noteq> None then query w (nodeQuery tq m)
      else nodeList tq n)"
  "nodeQuery (computeQuery w m tq) n = nodeQuery tq n"
  "childrenOf (nodes (computeQuery w m tq)) n = childrenOf (nodes tq) n"
  "(nodes (computeQuery w m tq) n = None) = (nodes tq n = None)"
  "queriesComputed (computeQuery w m tq) = insert m (queriesComputed tq)"
  "emptyResultsArr (computeQuery w m tq) = emptyResultsArr tq"
  "edgesFlattened (computeQuery w m tq) = edgesFlattened tq"
  "rootNode (computeQuery w m tq) = rootNode tq"
  by (auto simp: computeQuery_def setList_def nodeList_def nodeQuery_def childrenOf_def split: option.splits)

lemma nodeList_None: "nodes tq n = None \<Longrightarrow> nodeList tq n = []"
  by (simp add: nodeList_def)

lemma candidates_computeQuery:
  "set (candidates w (computeQuery w m tq) n) \<subseteq> set (candidates w tq n)"
  by (auto simp: candidates_def nodeList_None computeQuery_simps)

lemma candidates_evalEdge:
  "set (candidates w (stateOf (evalEdge e w tq)) n) \<subseteq> set (candidates w tq n)"
proof -
  let ?t1 = "computeQuery w (parentNode e) tq"
  let ?t2 = "computeQuery w (childNode e) ?t1"
  have c2: "set (candidates w ?t2 n) \<subseteq> set (candidates w tq n)"
    using candidates_computeQuery[of w "childNode e" ?t1 n] candidates_computeQuery[of w "parentNode e" tq n]
    by blast
  obtain ps cs where qf: "queryFilter (filter' e) (nodeList ?t2 (parentNode e)) (nodeList ?t2 (childNode e)) w
            (childrenOf (nodes ?t2) (childNode e) = []) = (ps, cs)"
    by fastforce
  have ps: "set ps \<subseteq> set (nodeList ?t2 (parentNode e))"
    using queryFilter_parents_subset[of "filter' e" "nodeList ?t2 (parentNode e)" "nodeList ?t2 (childNode e)" w
        "childrenOf (nodes ?t2) (childNode e) = []"] qf by simp
  have cs: "set cs \<subseteq> set (nodeList ?t2 (childNode e))"
    using queryFilter_children_subset[of "filter' e" "nodeList ?t2 (parentNode e)" "nodeList ?t2 (childNode e)" w
        "childrenOf (nodes ?t2) (childNode e) = []"] qf by simp
  have inQ: "parentNode e \<in> queriesComputed ?t2" "childNode e \<in> queriesComputed ?t2"
    by (simp_all add: computeQuery_simps)
  have narrow: "narrow e w tq = (?t2, ps, cs)"
    using qf by (simp add: narrow_def Let_def)
  show ?thesis
  proof (cases "ps = [] \<or> cs = []")
    case True
    then have "stateOf (evalEdge e w tq) = ?t2"
      by (auto simp add: evalEdge_def narrow stateOf_def)
    then show ?thesis using c2 by simp
  next
    case False
    then have st: "stateOf (evalEdge e w tq) = setList (childNode e) cs (setList (parentNode e) ps ?t2)"
      by (simp add: evalEdge_def narrow stateOf_def)
    have "set (candidates w (setList (childNode e) cs (setList (parentNode e) ps ?t2)) n)
            \<subseteq> set (candidates w ?t2 n)"
      using ps cs inQ unfolding candidates_def
      by (auto simp: setList_simps)
    then show ?thesis using c2 st by auto
  qed
qed


lemma agree_computeQuery:
  assumes "agree K a b"
  shows "agree K (computeQuery w m a) (computeQuery w m b)"
  using assms unfolding agree_def
  by (auto simp: computeQuery_simps nodeList_None)

lemma agree_setList:
  assumes "agree K a b"
  shows "agree K (setList m l a) (setList m l b)"
  using assms unfolding agree_def
  by (auto simp: setList_simps)

lemma agree_narrow:
  assumes "agree K a b"
  shows "agree K (fst (narrow e w a)) (fst (narrow e w b)) \<and> snd (narrow e w a) = snd (narrow e w b)"
proof -
  let ?a2 = "computeQuery w (childNode e) (computeQuery w (parentNode e) a)"
  let ?b2 = "computeQuery w (childNode e) (computeQuery w (parentNode e) b)"
  have ag: "agree K ?a2 ?b2"
    using assms by (intro agree_computeQuery)
  have "parentNode e \<in> queriesComputed ?a2" "childNode e \<in> queriesComputed ?a2"
    by (simp_all add: computeQuery_simps)
  with ag have "nodeList ?a2 (parentNode e) = nodeList ?b2 (parentNode e)"
    "nodeList ?a2 (childNode e) = nodeList ?b2 (childNode e)"
    "childrenOf (nodes ?a2) (childNode e) = childrenOf (nodes ?b2) (childNode e)"
    unfolding agree_def by blast+
  then show ?thesis
    using ag by (simp add: narrow_def Let_def)
qed

lemma agree_evalEdge:
  assumes "agree K a b"
  shows "rel_sum (agree K) (agree K) (evalEdge e w a) (evalEdge e w b)"
proof -
  obtain a2 ps cs where na: "narrow e w a = (a2, ps, cs)"
    by (cases "narrow e w a") auto
  obtain b2 where nb: "narrow e w b = (b2, ps, cs)" and ag: "agree K a2 b2"
    using agree_narrow[OF assms, of e w] na by (cases "narrow e w b") auto
  show ?thesis
    using ag by (simp add: evalEdge_def na nb agree_setList)
qed

lemma agree_forEdges:
  assumes "agree K a b"
  shows "rel_sum (agree K) (agree K) (forEdges es w a) (forEdges es w b)"
  using assms
proof (induction es arbitrary: a b)
  case Nil
  then show ?case by simp
next
  case (Cons e es)
  from agree_evalEdge[OF Cons.prems, of e w] show ?case
    by (cases "evalEdge e w a"; cases "evalEdge e w b") (auto intro: Cons.IH)
qed

lemma keeps_refl: "keeps K a a"
  by (simp add: keeps_def)

lemma keeps_trans: "keeps K a b \<Longrightarrow> keeps K b c \<Longrightarrow> keeps K a c"
  by (simp add: keeps_def)

lemma keeps_mono: "keeps K a b \<Longrightarrow> K \<subseteq> L \<Longrightarrow> keeps L a b"
  by (auto simp: keeps_def)

lemma keeps_evalEdge: "keeps {parentNode e, childNode e} a (stateOf (evalEdge e w a))"
proof -
  obtain a2 ps cs where na: "narrow e w a = (a2, ps, cs)"
    by (cases "narrow e w a") auto
  then have a2: "a2 = computeQuery w (childNode e) (computeQuery w (parentNode e) a)"
    by (simp add: narrow_def Let_def)
  show ?thesis
    by (simp add: evalEdge_def na stateOf_def keeps_def a2 computeQuery_simps setList_simps)
qed

lemma keeps_forEdges: "keeps (touched es) a (stateOf (forEdges es w a))"
proof (induction es arbitrary: a)
  case Nil
  then show ?case by (simp add: stateOf_def keeps_refl)
next
  case (Cons e es)
  have sub1: "{parentNode e, childNode e} \<subseteq> touched (e # es)" and sub2: "touched es \<subseteq> touched (e # es)"
    by (auto simp: touched_def)
  show ?case
  proof (cases "evalEdge e w a")
    case (Inl s)
    then have "stateOf (forEdges (e # es) w a) = stateOf (evalEdge e w a)"
      by (simp add: stateOf_def)
    then show ?thesis
      using keeps_mono[OF keeps_evalEdge[of e a w] sub1] by simp
  next
    case (Inr s)
    then have eq: "stateOf (forEdges (e # es) w a) = stateOf (forEdges es w s)"
      and s: "s = stateOf (evalEdge e w a)"
      by (simp_all add: stateOf_def)
    have "keeps (touched (e # es)) a s"
      using keeps_mono[OF keeps_evalEdge[of e a w] sub1] s by simp
    moreover have "keeps (touched (e # es)) s (stateOf (forEdges es w s))"
      using keeps_mono[OF Cons.IH sub2] .
    ultimately show ?thesis
      unfolding eq by (rule keeps_trans)
  qed
qed

lemma computed_evalEdge:
  "insert (parentNode e) (insert (childNode e) (queriesComputed a)) = queriesComputed (stateOf (evalEdge e w a))"
proof -
  obtain a2 ps cs where na: "narrow e w a = (a2, ps, cs)"
    by (cases "narrow e w a") auto
  then have a2: "a2 = computeQuery w (childNode e) (computeQuery w (parentNode e) a)"
    by (simp add: narrow_def Let_def)
  show ?thesis
    by (auto simp add: evalEdge_def na stateOf_def a2 computeQuery_simps setList_simps)
qed

lemma computed_forEdges:
  "forEdges es w a = Inr s \<Longrightarrow> touched es \<union> queriesComputed a \<subseteq> queriesComputed s"
proof (induction es arbitrary: a)
  case Nil
  then show ?case by (simp add: touched_def)
next
  case (Cons e es)
  then obtain a' where step: "evalEdge e w a = Inr a'" and rest: "forEdges es w a' = Inr s"
    by (auto split: sum.splits)
  have "queriesComputed a' = insert (parentNode e) (insert (childNode e) (queriesComputed a))"
    using computed_evalEdge[of e a w] step by (simp add: stateOf_def)
  with Cons.IH[OF rest] show ?case
    by (auto simp: touched_def)
qed

lemma runTreeQuery_reset:
  "runTreeQuery tq w =
     (case forEdges (edgesFlattened tq) w (reset tq) of
        Inl s \<Rightarrow> (emptyResultsArr s, s)
      | Inr s \<Rightarrow> (nodeList s (rootNode s), s))"
  by (simp add: runTreeQuery_def reset_def Let_def)

lemma agree_result:
  assumes ag: "agree (touched (edgesFlattened a)) (reset a) (reset b)"
  shows "fst (runTreeQuery a w) = fst (runTreeQuery b w)"
proof -
  let ?K = "touched (edgesFlattened a)"
  have eb: "edgesFlattened b = edgesFlattened a"
    using ag by (simp add: agree_def reset_def)
  have rel: "rel_sum (agree ?K) (agree ?K) (forEdges (edgesFlattened a) w (reset a))
       (forEdges (edgesFlattened a) w (reset b))"
    using agree_forEdges[OF ag] .
  show ?thesis
  proof (cases "forEdges (edgesFlattened a) w (reset a)")
    case (Inl s)
    with rel obtain s' where "forEdges (edgesFlattened a) w (reset b) = Inl s'" "agree ?K s s'"
      by (cases "forEdges (edgesFlattened a) w (reset b)") auto
    with Inl show ?thesis
      by (simp add: runTreeQuery_reset eb agree_def)
  next
    case (Inr s)
    with rel obtain s' where s': "forEdges (edgesFlattened a) w (reset b) = Inr s'" and ag': "agree ?K s s'"
      by (cases "forEdges (edgesFlattened a) w (reset b)") auto
    have "?K \<subseteq> queriesComputed s"
      using computed_forEdges[OF Inr] by simp
    then have "rootNode s \<in> queriesComputed s \<or> rootNode s \<notin> ?K"
      by blast
    with ag' have "nodeList s (rootNode s) = nodeList s' (rootNode s')"
      unfolding agree_def by metis
    with Inr s' show ?thesis
      by (simp add: runTreeQuery_reset eb)
  qed
qed

lemma reset_after_run:
  "agree (touched (edgesFlattened tq)) (reset tq) (reset (snd (runTreeQuery tq w')))"
proof -
  let ?s = "stateOf (forEdges (edgesFlattened tq) w' (reset tq))"
  have snd: "snd (runTreeQuery tq w') = ?s"
    by (simp add: runTreeQuery_reset stateOf_def split: sum.splits)
  have "keeps (touched (edgesFlattened tq)) (reset tq) ?s"
    by (rule keeps_forEdges)
  then show ?thesis
    unfolding snd by (simp add: keeps_def agree_def reset_def nodeList_def nodeQuery_def)
qed

lemma forEdges_append:
  "forEdges (es1 @ es2) w a = (case forEdges es1 w a of Inl s \<Rightarrow> Inl s | Inr s \<Rightarrow> forEdges es2 w s)"
  by (induction es1 arbitrary: a) (auto split: sum.splits)

lemma find_Some_holds: "find P xs = Some x \<Longrightarrow> P x \<and> x \<in> set xs"
  by (induction xs) (auto split: if_splits)

lemma matchesOf_empty:
  "matchesOf condition world skip cs p = [] \<longleftrightarrow> \<not> (\<exists>c \<in> set cs. condition p c world)"
  by (auto simp: matchesOf_def filter_empty_conv find_None_iff split: option.splits dest: find_Some_holds)

lemma queryFilter_empty_iff:
  "snd (queryFilter condition ps cs world skip) = [] \<longleftrightarrow> fst (queryFilter condition ps cs world skip) = []"
  by (auto simp: queryFilter_eq matchesOf_empty filter_empty_conv)

lemma evalEdge_alt:
  "evalEdge e w tq =
     (if fst (snd (narrow e w tq)) = [] \<or> snd (snd (narrow e w tq)) = [] then Inl (fst (narrow e w tq))
      else Inr (setList (childNode e) (snd (snd (narrow e w tq)))
                  (setList (parentNode e) (fst (snd (narrow e w tq))) (fst (narrow e w tq)))))"
  by (simp add: evalEdge_def split: prod.splits)

section \<open>Properties of the compiler\<close>

lemma forNodes_plain:
  "\<forall>v \<in> set q. \<not> isFilter v \<Longrightarrow>
   forNodes q r nnf st = (nnf, foldl (\<lambda>s v. pushComponent r v s) st q)"
proof (induction q arbitrary: st)
  case Nil
  then show ?case by simp
next
  case (Cons v q)
  then show ?case by (cases v) simp_all
qed

lemma pushComponent_fields:
  "filterWithTuple (pushComponent r v st) = filterWithTuple st"
  "childQueryObjects (pushComponent r v st) = childQueryObjects st"
  "finalQueries (pushComponent r v st) = finalQueries st"
  "nextId (pushComponent r v st) = nextId st"
  by (simp_all add: pushComponent_def)

lemma foldl_pushComponent_fields:
  "filterWithTuple (foldl (\<lambda>s v. pushComponent r v s) st q) = filterWithTuple st"
  "childQueryObjects (foldl (\<lambda>s v. pushComponent r v s) st q) = childQueryObjects st"
  "finalQueries (foldl (\<lambda>s v. pushComponent r v s) st q) = finalQueries st"
  "nextId (foldl (\<lambda>s v. pushComponent r v s) st q) = nextId st"
  by (induction q arbitrary: st) (simp_all add: pushComponent_fields)

lemma build_noFilter:
  assumes "\<forall>v \<in> set q. \<not> isFilter v"
  shows "\<exists>st'. buildQueryRecursive (Suc (Suc k)) q found None initBuild = Some st' \<and> filterWithTuple st' = []"
  using assms
  by (simp add: forNodes_plain genId_def newObject_def initBuild_def Let_def setId_def pushFinalQuery_def
      foldl_pushComponent_fields split: prod.splits)

lemma forTraits_array:
  "\<exists>v \<in> set traits. isArray v \<Longrightarrow> forTraits traits acc = Inl SyntaxError"
  by (induction traits acc rule: forTraits.induct) auto

lemma forTraits_sorted:
  "\<forall>v \<in> set traits. \<not> isArray v \<Longrightarrow>
   forTraits traits (cs, qs) =
     Inr (cs @ filter (\<lambda>v. \<not> isFilter v) traits, qs @ filter isFilter traits)"
  by (induction traits arbitrary: cs qs) simp_all

lemma createTreeQueryFilter_builds:
  "\<forall>v \<in> set traits. \<not> isArray v \<Longrightarrow>
   createTreeQueryFilter condition traits =
     Inr (QueryFilterNode (filter (\<lambda>v. \<not> isFilter v) traits) condition (filter isFilter traits))"
  by (simp add: createTreeQueryFilter_def forTraits_sorted)

lemma numeral_fuel: "(10::nat) = Suc (Suc (Suc (Suc (Suc (Suc (Suc (Suc (Suc (Suc 0)))))))))"
  by simp

lemma forNodes_append:
  "forNodes (q1 @ q2) r nnf st = (case forNodes q1 r nnf st of (nnf', st') \<Rightarrow> forNodes q2 r nnf' st')"
proof (induction q1 arbitrary: nnf st)
  case Nil
  then show ?case by simp
next
  case (Cons v q)
  then show ?case by (cases v) (simp_all add: Let_def split: prod.splits)
qed

lemma foldl_pushComponent:
  "r < length (heap st) \<Longrightarrow>
   foldl (\<lambda>s v. pushComponent r v s) st q =
     st\<lparr>heap := (heap st)[r := (heap st ! r)\<lparr>components := components (heap st ! r) @ q\<rparr>]\<rparr>"
proof (induction q arbitrary: st)
  case Nil
  then show ?case by simp
next
  case (Cons v q)
  then show ?case by (simp add: pushComponent_def)
qed

lemma chain_compiles:
  assumes plain: "\<forall>v \<in> set (rs1 @ rs2). \<not> isFilter v"
  shows "\<exists>r m l. r \<noteq> m \<and> r \<noteq> l \<and> m \<noteq> l \<and>
     createTreeQuery cacheQuery (Suc (Suc (Suc (Suc k))))
       (rs1 @ QueryFilterNode ms P1 [QueryFilterNode ls P2 []] # rs2) =
     Some (Inr (chainPlan r m l P1 P2 (cacheQuery (rs1 @ rs2)) (cacheQuery ms) (cacheQuery ls)))"
proof -
  have p1: "\<forall>v \<in> set rs1. \<not> isFilter v" and p2: "\<forall>v \<in> set rs2. \<not> isFilter v"
    using plain by auto
  show ?thesis
  proof (cases "rs1 @ rs2 = []"; cases "ms = []")
    show "rs1 @ rs2 = [] \<Longrightarrow> ms = [] \<Longrightarrow> ?thesis"
      apply (rule exI[of _ 2], rule exI[of _ 4], rule exI[of _ 3])
      apply (simp add: createTreeQuery_def genId_def newObject_def initBuild_def Let_def setId_def
      pushFinalQuery_def pushComponent_def hashQueries_def linkTuple_def childrenOf_def chainPlan_def)
      apply (rule ext)
      apply simp
      done
  next
    show "rs1 @ rs2 = [] \<Longrightarrow> ms \<noteq> [] \<Longrightarrow> ?thesis"
      apply (rule exI[of _ 2], rule exI[of _ 1], rule exI[of _ 3])
      apply (simp add: createTreeQuery_def genId_def newObject_def initBuild_def Let_def setId_def
      pushFinalQuery_def pushComponent_def hashQueries_def linkTuple_def childrenOf_def chainPlan_def)
      apply (rule ext)
      apply simp
      done
  next
    show "rs1 @ rs2 \<noteq> [] \<Longrightarrow> ms = [] \<Longrightarrow> ?thesis"
      apply (rule exI[of _ 0], rule exI[of _ 3], rule exI[of _ 2])
      using p1 p2
      apply (simp add: createTreeQuery_def forNodes_append forNodes_plain foldl_pushComponent genId_def newObject_def initBuild_def Let_def setId_def
      pushFinalQuery_def  hashQueries_def linkTuple_def childrenOf_def chainPlan_def nth_append)
      apply (rule ext)
      apply simp
      done
  next
    show "rs1 @ rs2 \<noteq> [] \<Longrightarrow> ms \<noteq> [] \<Longrightarrow> ?thesis"
      apply (rule exI[of _ 0], rule exI[of _ 1], rule exI[of _ 2])
      using p1 p2
      apply (simp add: createTreeQuery_def forNodes_append forNodes_plain foldl_pushComponent genId_def newObject_def initBuild_def Let_def setId_def
      pushFinalQuery_def  hashQueries_def linkTuple_def childrenOf_def chainPlan_def nth_append)
      apply (rule ext)
      apply simp
      done
  qed
qed


lemma chain_runs:
  assumes "r \<noteq> m" "r \<noteq> l" "m \<noteq> l"
  shows "fst (runTreeQuery (chainPlan r m l P1 P2 hr hm hl) w) =
     filter (\<lambda>r'. \<exists>m' \<in> set (filter (\<lambda>m'. \<exists>l' \<in> set (query w (Some hl)). P2 m' l' w) (query w (Some hm))).
                     P1 r' m' w)
       (query w (Some hr))"
proof -
  let ?mids = "filter (\<lambda>m'. \<exists>l' \<in> set (query w (Some hl)). P2 m' l' w) (query w (Some hm))"
  let ?roots = "filter (\<lambda>r'. \<exists>m' \<in> set ?mids. P1 r' m' w) (query w (Some hr))"
  let ?tq0 = "(chainPlan r m l P1 P2 hr hm hl)\<lparr>queriesComputed := {}, emptyResultsArr := []\<rparr>"
  let ?e2 = "\<lparr>filter' = P2, parentNode = m, childNode = l\<rparr>"
  let ?e1 = "\<lparr>filter' = P1, parentNode = r, childNode = m\<rparr>"
  let ?t2 = "computeQuery w l (computeQuery w m ?tq0)"
  let ?f2 = "queryFilter P2 (query w (Some hm)) (query w (Some hl)) w True"
  have n2: "narrow ?e2 w ?tq0 = (?t2, ?f2)"
    using assms
    by (simp add: narrow_def Let_def computeQuery_def setList_def nodeList_def nodeQuery_def
        childrenOf_def chainPlan_def)
  have ps2: "fst ?f2 = ?mids"
    by (simp add: queryFilter_eq)
  have cs2: "snd ?f2 = [] \<longleftrightarrow> ?mids = []"
    using queryFilter_empty_iff[of P2 "query w (Some hm)" "query w (Some hl)" w True] ps2 by simp
  have run: "runTreeQuery (chainPlan r m l P1 P2 hr hm hl) w =
      (case forEdges [?e2, ?e1] w ?tq0 of
            Inl tq' \<Rightarrow> (emptyResultsArr tq', tq')
          | Inr tq' \<Rightarrow> (nodeList tq' (rootNode tq'), tq'))"
    by (simp add: runTreeQuery_def Let_def chainPlan_def)
  show ?thesis
  proof (cases "?mids = []")
    case True
    then have "evalEdge ?e2 w ?tq0 = Inl ?t2"
      using ps2 by (simp add: evalEdge_alt n2)
    moreover have "emptyResultsArr ?t2 = []"
      by (simp add: computeQuery_def setList_def chainPlan_def split: option.splits)
    ultimately show ?thesis
      using True unfolding run by simp
  next
    case False
    let ?t3 = "setList l (snd ?f2) (setList m ?mids ?t2)"
    have e2: "evalEdge ?e2 w ?tq0 = Inr ?t3"
      using ps2 cs2 False by (simp add: evalEdge_alt n2)
    let ?t4 = "computeQuery w m (computeQuery w r ?t3)"
    let ?f4 = "queryFilter P1 (query w (Some hr)) ?mids w False"
    have n4: "narrow ?e1 w ?t3 = (?t4, ?f4)"
      using assms
      by (simp add: narrow_def Let_def computeQuery_def setList_def nodeList_def nodeQuery_def
        childrenOf_def chainPlan_def)
    have ps4: "fst ?f4 = ?roots"
      by (simp add: queryFilter_eq)
    have cs4: "snd ?f4 = [] \<longleftrightarrow> ?roots = []"
      using queryFilter_empty_iff[of P1 "query w (Some hr)" ?mids w False] ps4 by simp
    have root4: "rootNode ?t4 = r" "emptyResultsArr ?t4 = []" "nodes ?t4 r \<noteq> None"
      using assms
      by (simp_all add: computeQuery_def setList_def nodeQuery_def chainPlan_def)
    show ?thesis
    proof (cases "?roots = []")
      case True
      then have "evalEdge ?e1 w ?t3 = Inl ?t4"
        using ps4 by (simp add: evalEdge_alt n4)
      then show ?thesis
        unfolding run using e2 True root4 by simp
    next
      case False
      then have "evalEdge ?e1 w ?t3 = Inr (setList m (snd ?f4) (setList r ?roots ?t4))"
        using ps4 cs4 by (simp add: evalEdge_alt n4)
      moreover have "nodeList (setList m (snd ?f4) (setList r ?roots ?t4)) r = ?roots"
        using root4 assms by (auto simp: nodeList_def setList_def split: option.splits)
      moreover have "rootNode (setList m (snd ?f4) (setList r ?roots ?t4)) = r"
        using root4 by (auto simp: setList_def split: option.splits)
      ultimately show ?thesis
        unfolding run using e2 by simp
    qed
  qed
qed

section \<open>The node tree and its traversal\<close>

lemma linkTuple_children:
  "childrenOf (linkTuple objs queryById ns (c, p, ch)) n =
     (if n = wipId (objs ! p) \<and> wipId (objs ! ch) \<notin> dom ns \<and> wipId (objs ! ch) \<noteq> wipId (objs ! p)
      then childrenOf ns n @ [\<lparr>filter' = c, parentNode = wipId (objs ! p), childNode = wipId (objs ! ch)\<rparr>]
      else childrenOf ns n)"
  by (auto simp: linkTuple_def childrenOf_def Let_def split: option.splits)

lemma linkTuple_dom:
  "dom (linkTuple objs queryById ns (c, p, ch)) =
     (if wipId (objs ! ch) \<notin> dom ns \<and> wipId (objs ! ch) \<noteq> wipId (objs ! p)
      then insert (wipId (objs ! ch)) (insert (wipId (objs ! p)) (dom ns))
      else insert (wipId (objs ! p)) (dom ns))"
  by (auto simp: linkTuple_def Let_def split: option.splits if_splits)

lemma childrenOf_dom: "n \<notin> dom ns \<Longrightarrow> childrenOf ns n = []"
  by (auto simp: childrenOf_def split: option.splits)

lemma treeStore_empty: "treeStore root Map.empty"
  by (simp add: treeStore_def childrenOf_def)

lemma treeStore_linkTuple:
  assumes tree: "treeStore root ns" and root: "root \<in> dom ns \<or> (ns = Map.empty \<and> wipId (objs ! p) = root)"
  shows "treeStore root (linkTuple objs queryById ns (c, p, ch)) \<and>
         root \<in> dom (linkTuple objs queryById ns (c, p, ch))"
proof -
  let ?pid = "wipId (objs ! p)" and ?cid = "wipId (objs ! ch)"
  let ?ns' = "linkTuple objs queryById ns (c, p, ch)"
  let ?e = "\<lparr>filter' = c, parentNode = ?pid, childNode = ?cid\<rparr>"
  have par0: "\<And>n e. e \<in> set (childrenOf ns n) \<Longrightarrow>
      parentNode e = n \<and> childNode e \<in> dom ns \<and> childNode e \<noteq> root"
    using tree unfolding treeStore_def by blast
  have dist0: "\<And>n. distinct (map childNode (childrenOf ns n))"
    using tree unfolding treeStore_def by blast
  have uniq0: "\<And>n n' e e'. e \<in> set (childrenOf ns n) \<Longrightarrow> e' \<in> set (childrenOf ns n') \<Longrightarrow>
      childNode e = childNode e' \<Longrightarrow> n = n'"
    using tree unfolding treeStore_def by blast
  have domsub: "dom ns \<subseteq> dom ?ns'" and pin: "?pid \<in> dom ?ns'"
    by (auto simp: linkTuple_dom)
  have rootin: "root \<in> dom ?ns'"
  proof (rule disjE[OF root])
    assume "root \<in> dom ns"
    with domsub show ?thesis by (rule subsetD)
  next
    assume "ns = Map.empty \<and> wipId (objs ! p) = root"
    then have "?pid = root" by (rule conjunct2)
    with pin show ?thesis by simp
  qed
  show ?thesis
  proof (cases "?cid \<notin> dom ns \<and> ?cid \<noteq> ?pid")
    case False
    then have same: "\<And>n. childrenOf ?ns' n = childrenOf ns n"
      by (simp add: linkTuple_children)
    have "treeStore root ?ns'"
      unfolding treeStore_def same
    proof (intro conjI allI ballI impI)
      fix n e assume "e \<in> set (childrenOf ns n)"
      from par0[OF this] domsub
      show "parentNode e = n" "childNode e \<in> dom ?ns'" "childNode e \<noteq> root"
        by auto
    next
      fix n show "distinct (map childNode (childrenOf ns n))" by (rule dist0)
    next
      fix n n' e e'
      assume "e \<in> set (childrenOf ns n)" "e' \<in> set (childrenOf ns n')" "childNode e = childNode e'"
      then show "n = n'" by (rule uniq0)
    qed
    then show ?thesis using rootin by simp
  next
    case True
    then have ch: "\<And>n. childrenOf ?ns' n = (if n = ?pid then childrenOf ns n @ [?e] else childrenOf ns n)"
      by (simp add: linkTuple_children)
    have mem: "\<And>n e. e \<in> set (childrenOf ?ns' n) \<Longrightarrow>
        e \<in> set (childrenOf ns n) \<or> (n = ?pid \<and> e = ?e)"
      unfolding ch by (auto split: if_splits)
    have cin: "?cid \<in> dom ?ns'"
      using True by (simp add: linkTuple_dom)
    have croot: "?cid \<noteq> root"
    proof (rule disjE[OF root])
      assume "root \<in> dom ns"
      with True show ?thesis by blast
    next
      assume "ns = Map.empty \<and> wipId (objs ! p) = root"
      then have "?pid = root" by (rule conjunct2)
      with True show ?thesis by simp
    qed
    have fresh: "childNode e \<noteq> ?cid" if "e \<in> set (childrenOf ns n)" for n e
    proof
      assume "childNode e = ?cid"
      moreover have "childNode e \<in> dom ns"
        using par0[OF that] by simp
      ultimately have "?cid \<in> dom ns" by simp
      with True show False by simp
    qed
    have "treeStore root ?ns'"
      unfolding treeStore_def
    proof (intro conjI allI ballI impI)
      fix n e assume "e \<in> set (childrenOf ?ns' n)"
      from mem[OF this]
      have key: "parentNode e = n \<and> childNode e \<in> dom ?ns' \<and> childNode e \<noteq> root"
      proof (elim disjE conjE)
        assume old: "e \<in> set (childrenOf ns n)"
        from par0[OF old] have "childNode e \<in> dom ns" by simp
        with domsub have "childNode e \<in> dom ?ns'" by (rule subsetD)
        with par0[OF old] show ?thesis by simp
      next
        assume "n = ?pid" "e = ?e"
        with cin croot show ?thesis by simp
      qed
      from key show "parentNode e = n" by simp
      from key show "childNode e \<in> dom ?ns'" by simp
      from key show "childNode e \<noteq> root" by simp
    next
      fix n
      have "childNode ?e \<notin> childNode ` set (childrenOf ns n)"
      proof
        assume "childNode ?e \<in> childNode ` set (childrenOf ns n)"
        then obtain x where x: "x \<in> set (childrenOf ns n)" and "childNode x = ?cid"
          by (auto simp: image_iff)
        with fresh[OF x] show False by simp
      qed
      then show "distinct (map childNode (childrenOf ?ns' n))"
        unfolding ch using dist0[of n] by (cases "n = wipId (objs ! p)") simp_all
    next
      fix n n' e e'
      assume e: "e \<in> set (childrenOf ?ns' n)" and e': "e' \<in> set (childrenOf ?ns' n')"
        and eq: "childNode e = childNode e'"
      from mem[OF e] mem[OF e'] show "n = n'"
      proof (elim disjE conjE)
        assume "e \<in> set (childrenOf ns n)" "e' \<in> set (childrenOf ns n')"
        then show ?thesis using eq by (rule uniq0)
      next
        assume "e \<in> set (childrenOf ns n)" "n' = ?pid" "e' = ?e"
        with fresh[of e n] eq show ?thesis by simp
      next
        assume "n = ?pid" "e = ?e" "e' \<in> set (childrenOf ns n')"
        with fresh[of e' n'] eq show ?thesis by simp
      next
        assume "n = ?pid" "n' = ?pid"
        then show ?thesis by simp
      qed
    qed
    then show ?thesis
      using rootin by simp
  qed
qed

lemma treeStore_foldl:
  assumes "treeStore root ns" and "root \<in> dom ns"
  shows "treeStore root (foldl (linkTuple objs queryById) ns ts)"
  using assms
proof (induction ts arbitrary: ns)
  case Nil
  then show ?case by simp
next
  case (Cons t ts)
  obtain c p ch where t: "t = (c, p, ch)" by (cases t) auto
  from treeStore_linkTuple[OF Cons.prems(1), where p=p and objs=objs and queryById=queryById and c=c and ch=ch] Cons.prems(2)
  have "treeStore root (linkTuple objs queryById ns t)" "root \<in> dom (linkTuple objs queryById ns t)"
    unfolding t by auto
  then show ?case
    using Cons.IH by simp
qed

lemma treeStore_built:
  "treeStore (wipId (objs ! p)) (foldl (linkTuple objs queryById) Map.empty ((c, p, ch) # ts))"
proof -
  from treeStore_linkTuple[OF treeStore_empty, where p=p and objs=objs and root="wipId (objs ! p)" and queryById=queryById and c=c and ch=ch]
  have "treeStore (wipId (objs ! p)) (linkTuple objs queryById Map.empty (c, p, ch))"
    "wipId (objs ! p) \<in> dom (linkTuple objs queryById Map.empty (c, p, ch))"
    by auto
  then have "treeStore (wipId (objs ! p))
      (foldl (linkTuple objs queryById) (linkTuple objs queryById Map.empty (c, p, ch)) ts)"
    by (rule treeStore_foldl)
  then show ?thesis
    by simp
qed



lemma parentsFirst_append:
  "parentsFirst (xs @ ys) \<longleftrightarrow>
     parentsFirst xs \<and> parentsFirst ys \<and> (\<forall>e \<in> set xs. parentNode e \<notin> childNode ` set ys)"
proof (induction xs)
  case Nil
  then show ?case by simp
next
  case (Cons x xs)
  have "parentNode x \<notin> childNode ` set (x # xs @ ys) \<longleftrightarrow>
        parentNode x \<notin> childNode ` set (x # xs) \<and> parentNode x \<notin> childNode ` set ys"
    by (simp add: image_Un)
  then show ?case
    using Cons.IH by (simp del: image_insert add: conj_ac)
qed

lemma parentsFirst_same_parent:
  "\<forall>e \<in> set es. parentNode e \<notin> childNode ` set es \<Longrightarrow> parentsFirst es"
  by (induction es) auto


lemma visitInv_step:
  assumes tree: "treeStore root ns" and inv: "visitInv root ns X stack acc" and ne: "stack \<noteq> []"
  shows "visitInv root ns (insert (last stack) X)
           (butlast stack @ map childNode (childrenOf ns (last stack)))
           (acc @ childrenOf ns (last stack))"
proof -
  let ?n = "last stack" and ?ch = "childrenOf ns (last stack)"
  have nstack: "?n \<in> set stack" using ne by simp
  note i0 = inv[unfolded visitInv_def]
  note dst = i0[THEN conjunct1] and i1 = i0[THEN conjunct2]
  note dis = i1[THEN conjunct1] and i2 = i1[THEN conjunct2]
  note accset = i2[THEN conjunct1] and i3 = i2[THEN conjunct2]
  note reach = i3[THEN conjunct1] and i4 = i3[THEN conjunct2]
  note dacc = i4[THEN conjunct1] and pf = i4[THEN conjunct2]
  have nX: "?n \<notin> X" using nstack dis by blast
  have "distinct (butlast stack @ [?n])"
    using dst by (simp add: append_butlast_last_id[OF ne])
  then have nbut: "?n \<notin> set (butlast stack)"
    by simp
  have butsub: "set (butlast stack) \<subseteq> set stack"
    by (meson in_set_butlastD subsetI)
  have par: "\<And>m e. e \<in> set (childrenOf ns m) \<Longrightarrow> parentNode e = m \<and> childNode e \<noteq> root"
    using tree unfolding treeStore_def by blast
  have uniq: "\<And>m m' e e'. e \<in> set (childrenOf ns m) \<Longrightarrow> e' \<in> set (childrenOf ns m') \<Longrightarrow>
      childNode e = childNode e' \<Longrightarrow> m = m'"
    using tree unfolding treeStore_def by blast
  have dch: "distinct (map childNode ?ch)"
    using tree unfolding treeStore_def by blast
  have accX: "\<And>e. e \<in> set acc \<Longrightarrow> \<exists>m \<in> X. e \<in> set (childrenOf ns m)"
    using accset by simp
  have notacc: "\<And>e e'. e \<in> set ?ch \<Longrightarrow> e' \<in> set acc \<Longrightarrow> childNode e' \<noteq> childNode e"
  proof
    fix e e' assume e: "e \<in> set ?ch" and e': "e' \<in> set acc" and eq: "childNode e' = childNode e"
    from accX[OF e'] obtain m where m: "m \<in> X" "e' \<in> set (childrenOf ns m)" by blast
    from uniq[OF e m(2)] eq have "?n = m" by simp
    with m(1) nX show False by simp
  qed
  have fresh: "\<And>e. e \<in> set ?ch \<Longrightarrow> childNode e \<notin> X \<union> set stack"
  proof
    fix e assume e: "e \<in> set ?ch" and "childNode e \<in> X \<union> set stack"
    with reach have "childNode e = root \<or> (\<exists>e' \<in> set acc. childNode e' = childNode e)" by blast
    with par[OF e] notacc[OF e] show False by blast
  qed
  have 1: "distinct (butlast stack @ map childNode ?ch)"
    using dst dch fresh butsub by (auto simp: distinct_butlast)
  have 2: "set (butlast stack @ map childNode ?ch) \<inter> insert ?n X = {}"
    using dis nbut butsub fresh nstack by auto
  have 3: "set (acc @ ?ch) = {e. \<exists>n \<in> insert ?n X. e \<in> set (childrenOf ns n)}"
    using accset by auto
  have 4: "\<forall>x \<in> insert ?n X \<union> set (butlast stack @ map childNode ?ch).
             x = root \<or> (\<exists>e \<in> set (acc @ ?ch). childNode e = x)"
    using reach nstack butsub by auto
  have 5: "distinct (map childNode (acc @ ?ch))"
    using dacc dch notacc by auto
  have "\<forall>e \<in> set ?ch. parentNode e \<notin> childNode ` set ?ch"
  proof
    fix e assume "e \<in> set ?ch"
    then have "parentNode e = ?n" using par by simp
    then show "parentNode e \<notin> childNode ` set ?ch" using fresh nstack by auto
  qed
  then have "parentsFirst ?ch"
    by (rule parentsFirst_same_parent)
  moreover have "\<forall>e \<in> set acc. parentNode e \<notin> childNode ` set ?ch"
  proof
    fix e assume "e \<in> set acc"
    then obtain m where "m \<in> X" "e \<in> set (childrenOf ns m)" using accX by blast
    then have "parentNode e \<in> X" using par by simp
    then show "parentNode e \<notin> childNode ` set ?ch" using fresh by auto
  qed
  ultimately have 6: "parentsFirst (acc @ ?ch)"
    using pf by (simp add: parentsFirst_append)
  show ?thesis
    unfolding visitInv_def by (intro conjI 1 2 3 4 5 6)
qed


lemma visitInv_init: "visitInv root ns {} [root] []"
  by (simp add: visitInv_def)












section \<open>The compiler returns\<close>

text \<open>
  Every call of \<open>buildQueryRecursive\<close> that returns leaves \<open>childQueryObjects\<close> empty, so
  the loop over it never goes beyond its first entry; the recursion descends into lists
  nested in its argument, so it ends; the node store is a finite tree, so the flattening
  loop ends. With enough fuel \<open>createTreeQuery\<close> returns, and more fuel gives the same
  result.
\<close>

lemma build_Suc:
  "buildQueryRecursive (Suc fuel) q found pqo st =
     forChildQueryObjects fuel 0 (fst (levelState q found pqo st)) (snd (levelState q found pqo st))"
  by (simp add: levelState_def Let_def split: prod.splits)

lemma forNodes_nested_smaller:
  "\<forall>entry \<in> set (childQueryObjects (snd (forNodes q r nnf st))).
     entry \<in> set (childQueryObjects st) \<or> size_list size (fst entry) < size_list size q"
proof (induction q arbitrary: nnf st)
  case Nil
  then show ?case by simp
next
  case (Cons v q)
  show ?case
  proof (cases v)
    case (Trait t)
    with Cons.IH[of nnf "pushComponent r v st"] show ?thesis
      by (auto simp: pushComponent_def)
  next
    case (Array vs)
    with Cons.IH[of nnf "pushComponent r v st"] show ?thesis
      by (auto simp: pushComponent_def)
  next
    case (QueryFilterNode cs c qs)
    let ?st5 = "snd (forNodes [v] r nnf st)"
    have step: "forNodes (v # q) r nnf st = forNodes q r (nnf \<or> cs \<noteq> []) ?st5"
      using QueryFilterNode by (simp add: Let_def split: prod.splits)
    have cq5: "set (childQueryObjects ?st5) \<subseteq> set (childQueryObjects st) \<union> {(qs, length (heap st))}"
      using QueryFilterNode
      by (auto simp: Let_def genId_def newObject_def pushFinalQuery_def split: prod.splits if_splits)
    have small: "size_list size qs < size_list size (v # q)"
      using QueryFilterNode by simp
    show ?thesis
      unfolding step
    proof
      fix entry assume "entry \<in> set (childQueryObjects (snd (forNodes q r (nnf \<or> cs \<noteq> []) ?st5)))"
      with Cons.IH[of "nnf \<or> cs \<noteq> []" ?st5]
      have "entry \<in> set (childQueryObjects ?st5) \<or> size_list size (fst entry) < size_list size q"
        by blast
      then show "entry \<in> set (childQueryObjects st) \<or> size_list size (fst entry) < size_list size (v # q)"
      proof
        assume "entry \<in> set (childQueryObjects ?st5)"
        with cq5 have "entry \<in> set (childQueryObjects st) \<or> entry = (qs, length (heap st))" by blast
        then show ?thesis using small by auto
      next
        assume "size_list size (fst entry) < size_list size q"
        then show ?thesis by simp
      qed
    qed
  qed
qed

lemma levelState_nested_smaller:
  "\<forall>entry \<in> set (childQueryObjects (snd (levelState q found pqo st))).
     size_list size (fst entry) < size_list size q"
proof -
  let ?st0 = "st\<lparr>childQueryObjects := []\<rparr>"
  let ?p = "(case pqo of
               Some r \<Rightarrow> (r, ?st0)
             | None \<Rightarrow> (let (i, s) = genId ?st0 in newObject \<lparr>wipId = i, components = []\<rparr> s))"
  have cq1: "childQueryObjects (snd ?p) = []"
    by (cases pqo) (simp_all add: genId_def newObject_def)
  have "childQueryObjects (snd (levelState q found pqo st)) =
        childQueryObjects (snd (forNodes q (fst ?p) False (snd ?p)))"
    by (simp add: levelState_def Let_def genId_def pushFinalQuery_def setId_def split: prod.splits)
  then show ?thesis
    using forNodes_nested_smaller[of q "fst ?p" False "snd ?p"] cq1 by simp
qed


lemma forChild_Suc:
  "forChildQueryObjects (Suc fuel) idx nnf st =
     (if idx < length (childQueryObjects st)
      then (case buildQueryRecursive fuel (fst (childQueryObjects st ! idx)) nnf
                   (Some (snd (childQueryObjects st ! idx))) st of
              None \<Rightarrow> None
            | Some st' \<Rightarrow> forChildQueryObjects fuel (Suc idx) nnf st')
      else Some st)"
  by (simp split: prod.splits)

lemma build_leaves_no_children:
  "(\<forall>q found pqo (st :: ('t, 'c) build) st'. buildQueryRecursive fuel q found pqo st = Some st' \<longrightarrow>
       childQueryObjects st' = []) \<and>
   (\<forall>idx nnf (st :: ('t, 'c) build) st'. forChildQueryObjects fuel idx nnf st = Some st' \<longrightarrow>
       (if idx < length (childQueryObjects st) then childQueryObjects st' = [] else st' = st))"
proof (induction fuel)
  case 0
  then show ?case by simp
next
  case (Suc fuel)
  have b: "childQueryObjects st' = []"
    if "buildQueryRecursive (Suc fuel) q found pqo st = Some st'" for q found pqo and st :: "('t, 'c) build" and st'
  proof -
    let ?l = "levelState q found pqo st"
    from that have f: "forChildQueryObjects fuel 0 (fst ?l) (snd ?l) = Some st'"
      by (simp only: build_Suc)
    from Suc.IH[THEN conjunct2, rule_format, OF f]
    have "if 0 < length (childQueryObjects (snd ?l)) then childQueryObjects st' = []
        else st' = snd ?l" .
    then show ?thesis
      by (cases "childQueryObjects (snd ?l)") simp_all
  qed
  have f: "if idx < length (childQueryObjects st) then childQueryObjects st' = [] else st' = st"
    if "forChildQueryObjects (Suc fuel) idx nnf st = Some st'" for idx nnf and st :: "('t, 'c) build" and st'
  proof (cases "idx < length (childQueryObjects st)")
    case False
    with that show ?thesis by (simp only: forChild_Suc if_False) simp
  next
    case True
    let ?b = "buildQueryRecursive fuel (fst (childQueryObjects st ! idx)) nnf
                   (Some (snd (childQueryObjects st ! idx))) st"
    from that True obtain st1 where st1: "?b = Some st1"
      and rest: "forChildQueryObjects fuel (Suc idx) nnf st1 = Some st'"
      by (cases ?b) (simp_all only: forChild_Suc if_True option.case option.distinct)
    from Suc.IH[THEN conjunct1, rule_format, OF st1] have e: "childQueryObjects st1 = []" .
    from Suc.IH[THEN conjunct2, rule_format, OF rest]
    have "if Suc idx < length (childQueryObjects st1) then childQueryObjects st' = []
        else st' = st1" .
    with e have "st' = st1" by simp
    with e True show ?thesis by simp
  qed
  show ?case
    using b f by (intro conjI allI impI)
qed

lemma forChild_done:
  "childQueryObjects st = [] \<Longrightarrow> forChildQueryObjects (Suc fuel) idx nnf st = Some st"
  by (simp only: forChild_Suc) simp

lemma build_returns:
  "2 * size_list size q + 2 \<le> fuel \<Longrightarrow> \<exists>st'. buildQueryRecursive fuel q found pqo st = Some st'"
proof (induction fuel arbitrary: q found pqo st rule: less_induct)
  case (less fuel)
  define f where "f = fuel - 2"
  have fuel: "fuel = Suc (Suc f)"
    using less.prems by (simp add: f_def)
  let ?l = "levelState q found pqo st"
  show ?case
  proof (cases "childQueryObjects (snd ?l)")
    case Nil
    then show ?thesis
      unfolding fuel build_Suc by (simp only: forChild_done) simp
  next
    case (Cons entry rest)
    have "entry \<in> set (childQueryObjects (snd ?l))"
      using Cons by simp
    with levelState_nested_smaller[of q found pqo st]
    have small: "size_list size (fst entry) < size_list size q"
      by blast
    have "2 * size_list size (fst entry) + 2 \<le> f"
      using small less.prems fuel by simp
    moreover have "f < fuel" using fuel by simp
    ultimately obtain st1 where st1:
      "buildQueryRecursive f (fst entry) (fst ?l) (Some (snd entry)) (snd ?l) = Some st1"
      using less.IH by blast
    have e: "childQueryObjects st1 = []"
      using build_leaves_no_children[of f, THEN conjunct1, rule_format, OF st1] .
    obtain f' where f': "f = Suc f'"
      using \<open>2 * size_list size (fst entry) + 2 \<le> f\<close> by (cases f) simp_all
    have "forChildQueryObjects f (Suc 0) (fst ?l) st1 = Some st1"
      unfolding f' using e by (rule forChild_done)
    then have "forChildQueryObjects (Suc f) 0 (fst ?l) (snd ?l) = Some st1"
      using st1 Cons by (simp only: forChild_Suc) simp
    then show ?thesis
      unfolding fuel build_Suc by blast
  qed
qed

lemma build_fuel_Suc:
  "(\<forall>q found pqo (st :: ('t, 'c) build) r. buildQueryRecursive fuel q found pqo st = Some r \<longrightarrow>
       buildQueryRecursive (Suc fuel) q found pqo st = Some r) \<and>
   (\<forall>idx nnf (st :: ('t, 'c) build) r. forChildQueryObjects fuel idx nnf st = Some r \<longrightarrow>
       forChildQueryObjects (Suc fuel) idx nnf st = Some r)"
proof (induction fuel)
  case 0
  then show ?case by simp
next
  case (Suc fuel)
  have b: "buildQueryRecursive (Suc (Suc fuel)) q found pqo st = Some r"
    if "buildQueryRecursive (Suc fuel) q found pqo st = Some r" for q found pqo and st :: "('t, 'c) build" and r
    using Suc.IH[THEN conjunct2, rule_format, OF that[unfolded build_Suc]] unfolding build_Suc .
  have f: "forChildQueryObjects (Suc (Suc fuel)) idx nnf st = Some r"
    if a: "forChildQueryObjects (Suc fuel) idx nnf st = Some r" for idx nnf and st :: "('t, 'c) build" and r
  proof (cases "idx < length (childQueryObjects st)")
    case False
    with a show ?thesis by (simp only: forChild_Suc if_False)
  next
    case True
    let ?b = "\<lambda>n. buildQueryRecursive n (fst (childQueryObjects st ! idx)) nnf
                   (Some (snd (childQueryObjects st ! idx))) st"
    from a True obtain st1 where st1: "?b fuel = Some st1"
      and rest: "forChildQueryObjects fuel (Suc idx) nnf st1 = Some r"
      by (cases "?b fuel") (simp_all only: forChild_Suc if_True option.case option.distinct)
    from Suc.IH[THEN conjunct1, rule_format, OF st1] have "?b (Suc fuel) = Some st1" .
    moreover from Suc.IH[THEN conjunct2, rule_format, OF rest]
    have "forChildQueryObjects (Suc fuel) (Suc idx) nnf st1 = Some r" .
    ultimately show ?thesis
      using True by (simp only: forChild_Suc[of "Suc fuel"] if_True option.case)
  qed
  show ?case using b f by (intro conjI allI impI)
qed

lemma build_fuel_mono:
  "buildQueryRecursive fuel q found pqo st = Some r \<Longrightarrow> fuel \<le> fuel' \<Longrightarrow>
   buildQueryRecursive fuel' q found pqo st = Some r"
proof (induction fuel' arbitrary: )
  case 0
  then show ?case by simp
next
  case (Suc fuel')
  show ?case
  proof (cases "fuel = Suc fuel'")
    case True
    with Suc.prems show ?thesis by simp
  next
    case False
    with Suc.prems have "fuel \<le> fuel'" by simp
    with Suc have "buildQueryRecursive fuel' q found pqo st = Some r" by simp
    then show ?thesis by (rule build_fuel_Suc[of fuel', THEN conjunct1, rule_format])
  qed
qed


lemma traverse_returns:
  assumes tree: "treeStore root ns" and fin: "finite (dom ns)"
  shows "visitInv root ns X stack acc \<Longrightarrow> set stack \<subseteq> dom ns \<Longrightarrow>
         card (dom ns - X) < fuel \<Longrightarrow> \<exists>res. traverse fuel ns stack acc = Some res"
proof (induction fuel arbitrary: X stack acc)
  case 0
  then show ?case by simp
next
  case (Suc fuel)
  show ?case
  proof (cases "stack = []")
    case True
    then show ?thesis by simp
  next
    case False
    let ?n = "last stack" and ?ch = "childrenOf ns (last stack)"
    have inv': "visitInv root ns (insert ?n X) (butlast stack @ map childNode ?ch) (acc @ ?ch)"
      using tree Suc.prems(1) False by (rule visitInv_step)
    have nstack: "?n \<in> set stack" using False by simp
    then have ndom: "?n \<in> dom ns" using Suc.prems(2) by blast
    have "set stack \<inter> X = {}"
      using Suc.prems(1) by (simp add: visitInv_def)
    with nstack have nX: "?n \<notin> X" by blast
    have chdom: "childNode ` set ?ch \<subseteq> dom ns"
      using tree unfolding treeStore_def by blast
    have "set (butlast stack) \<subseteq> set stack"
      by (meson in_set_butlastD subsetI)
    with Suc.prems(2) chdom have sub': "set (butlast stack @ map childNode ?ch) \<subseteq> dom ns"
      by auto
    have "dom ns - insert ?n X \<subset> dom ns - X"
      using ndom nX by blast
    then have "card (dom ns - insert ?n X) < card (dom ns - X)"
      using fin by (simp add: psubset_card_mono)
    with Suc.prems(3) have card': "card (dom ns - insert ?n X) < fuel"
      by simp
    from Suc.IH[OF inv' sub' card'] show ?thesis
      using False by (simp add: Let_def)
  qed
qed

lemma traverse_fuel_mono:
  "traverse fuel ns stack acc = Some res \<Longrightarrow> fuel \<le> fuel' \<Longrightarrow> traverse fuel' ns stack acc = Some res"
proof (induction fuel arbitrary: fuel' stack acc)
  case 0
  then show ?case by simp
next
  case (Suc fuel)
  then obtain f where f: "fuel' = Suc f" and le: "fuel \<le> f"
    by (cases fuel') simp_all
  show ?case
  proof (cases "stack = []")
    case True
    with Suc.prems(1) show ?thesis by (simp add: f)
  next
    case False
    with Suc.prems(1) have "traverse fuel ns (butlast stack @ map childNode (childrenOf ns (last stack)))
        (acc @ childrenOf ns (last stack)) = Some res"
      by (simp add: Let_def)
    from Suc.IH[OF this le] show ?thesis
      using False by (simp add: f Let_def)
  qed
qed

lemma finite_dom_linked: "finite (dom ns) \<Longrightarrow> finite (dom (foldl (linkTuple objs queryById) ns ts))"
proof (induction ts arbitrary: ns)
  case Nil
  then show ?case by simp
next
  case (Cons t ts)
  obtain c p ch where t: "t = (c, p, ch)" by (cases t) auto
  have "finite (dom (linkTuple objs queryById ns t))"
    using Cons.prems unfolding t by (simp add: linkTuple_dom)
  then show ?case
    using Cons.IH by simp
qed

lemma createTreeQuery_returns:
  fixes queryTree :: "('t, 'c) jsvalue list" and cacheQuery :: "('t, 'c) jsvalue list \<Rightarrow> 'h"
  shows "\<exists>N (r :: error + ('c, 'h, 'e) TreeQuery). \<forall>fuel \<ge> N. createTreeQuery cacheQuery fuel queryTree = Some r"
proof (cases "queryTree = []")
  case True
  then show ?thesis by (simp add: createTreeQuery_def)
next
  case False
  let ?N0 = "2 * size_list size queryTree + 2"
  obtain st where st0: "buildQueryRecursive ?N0 queryTree False None initBuild = Some st"
    using build_returns[of queryTree ?N0 False None initBuild] by blast
  have st: "buildQueryRecursive fuel queryTree False None initBuild = Some st" if "?N0 \<le> fuel" for fuel
    using st0 that by (rule build_fuel_mono)
  show ?thesis
  proof (cases "filterWithTuple st")
    case Nil
    have "createTreeQuery cacheQuery fuel queryTree =
        (Some (Inl NoFilter) :: (error + ('c, 'h, 'e) TreeQuery) option)" if "?N0 \<le> fuel" for fuel
      using False st[OF that] Nil by (simp add: createTreeQuery_def)
    then show ?thesis by blast
  next
    case (Cons t ts)
    obtain c p ch where t: "t = (c, p, ch)" by (cases t) auto
    let ?ns = "foldl (linkTuple (heap st) (hashQueries cacheQuery (heap st) (finalQueries st)))
                        (Map.empty :: nat \<rightharpoonup> ('c, 'h, 'e) EvalNode) ((c, p, ch) # ts)"
    let ?root = "wipId (heap st ! p)"
    have unfold: "createTreeQuery cacheQuery fuel queryTree =
      (case ?ns ?root of
         None \<Rightarrow> Some (Inl UnexpectedFailure)
       | Some rootN \<Rightarrow>
           (case traverse fuel ?ns [?root] [] of
              None \<Rightarrow> None
            | Some edges \<Rightarrow>
                Some (Inr \<lparr>edgesFlattened = rev edges, rootNode = ?root, nodes = ?ns,
                           queriesComputed = {}, emptyResultsArr = []\<rparr>)))" if "?N0 \<le> fuel" for fuel
      using False st[OF that] Cons t by (simp add: createTreeQuery_def Let_def del: foldl_Cons)
    show ?thesis
    proof (cases "?ns ?root")
      case None
      have "createTreeQuery cacheQuery fuel queryTree =
          (Some (Inl UnexpectedFailure) :: (error + ('c, 'h, 'e) TreeQuery) option)" if "?N0 \<le> fuel" for fuel
        unfolding unfold[OF that] None by simp
      then show ?thesis by blast
    next
      case (Some rootN)
      have tree: "treeStore ?root ?ns"
        by (rule treeStore_built)
      have fin: "finite (dom ?ns)"
        by (rule finite_dom_linked) simp
      have rootdom: "set [?root] \<subseteq> dom ?ns"
        using Some by auto
      let ?N1 = "Suc (card (dom ?ns))"
      have "card (dom ?ns - {}) < ?N1" by simp
      from traverse_returns[OF tree fin visitInv_init rootdom this]
      obtain res where res: "traverse ?N1 ?ns [?root] [] = Some res" by blast
      have "createTreeQuery cacheQuery fuel queryTree =
          Some (Inr \<lparr>edgesFlattened = rev res, rootNode = ?root, nodes = ?ns,
                           queriesComputed = {}, emptyResultsArr = []\<rparr>)" if "max ?N0 ?N1 \<le> fuel" for fuel
      proof -
        from that have 1: "?N0 \<le> fuel" and 2: "?N1 \<le> fuel" by simp_all
        from traverse_fuel_mono[OF res 2] show ?thesis
          unfolding unfold[OF 1] Some by simp
      qed
      then show ?thesis by blast
    qed
  qed
qed

section \<open>Claims about the filter\<close>

text \<open>
  C1. The filter keeps a parent \<open>p\<close> exactly when some child \<open>c\<close> of the input child list
  satisfies \<open>condition p c world\<close>, and it keeps the parents in their input order. The
  output child list is, parent after parent, the children matching that parent: all of
  them when \<open>skipCollectingChildren\<close> is false, the first one only when it is true.
\<close>

theorem queryFilter_existential:
  "(p \<in> set (fst (queryFilter condition ps cs world skip)) \<longleftrightarrow>
      p \<in> set ps \<and> (\<exists>c \<in> set cs. condition p c world))
   \<and> fst (queryFilter condition ps cs world skip) =
       filter (\<lambda>p. \<exists>c \<in> set cs. condition p c world) ps
   \<and> snd (queryFilter condition ps cs world False) =
       concat (map (\<lambda>p. filter (\<lambda>c. condition p c world) cs) ps)
   \<and> snd (queryFilter condition ps cs world True) =
       concat (map (\<lambda>p. case find (\<lambda>c. condition p c world) cs of None \<Rightarrow> [] | Some c \<Rightarrow> [c]) ps)"
proof -
  have all: "matchesOf condition world False cs = (\<lambda>p. filter (\<lambda>c. condition p c world) cs)"
    by (rule ext) (simp add: matchesOf_def)
  have first: "matchesOf condition world True cs =
      (\<lambda>p. case find (\<lambda>c. condition p c world) cs of None \<Rightarrow> [] | Some c \<Rightarrow> [c])"
    by (rule ext) (simp add: matchesOf_def)
  show ?thesis
    by (simp add: queryFilter_eq all first)
qed

text \<open>
  C6. The parents the filter keeps do not depend on \<open>skipCollectingChildren\<close>: the output
  parent list is the same list for both values of the flag.
\<close>

theorem queryFilter_shortCircuit_parents:
  "fst (queryFilter condition ps cs world True) = fst (queryFilter condition ps cs world False)"
  by (simp add: queryFilter_eq)


section \<open>Claims about the compiled query\<close>


lemma rerun_same: "fst (runTreeQuery (snd (runTreeQuery tq w')) w) = fst (runTreeQuery tq w)"
  using agree_result[OF reset_after_run[of tq w'], of w] by simp

text \<open>
  C2. A three-level chain \<open>createTreeQuery(...rs1, F1(...ms, F2(...ls)), ...rs2)\<close>, where
  \<open>rs1\<close> and \<open>rs2\<close> hold no filter node and \<open>F1\<close>, \<open>F2\<close> were built from the conditions
  \<open>P1\<close>, \<open>P2\<close>, compiles (with fuel 4 or more) to a query whose result in a world \<open>w\<close>,
  on its first run and on every run after another one, holds an entity \<open>r\<close> exactly when
  \<open>r\<close> is in the store's answer to the root query and some \<open>m\<close> in the answer to the
  middle query has \<open>P1 r m w\<close> and some \<open>l\<close> in the answer to the leaf query with \<open>P2 m l w\<close>.
\<close>

theorem chain_query_semantics:
  fixes P1 :: "'e \<Rightarrow> 'e \<Rightarrow> ('h, 'e, 's) World \<Rightarrow> bool"
  assumes plain: "\<forall>v \<in> set (rs1 @ rs2). \<not> isFilter v" and fuel: "4 \<le> fuel"
  shows "\<exists>tq. createTreeQuery cacheQuery fuel
                 (rs1 @ QueryFilterNode ms P1 [QueryFilterNode ls P2 []] # rs2) = Some (Inr tq) \<and>
           (\<forall>w r. r \<in> set (fst (runTreeQuery tq w)) \<longleftrightarrow>
              r \<in> set (query w (Some (cacheQuery (rs1 @ rs2)))) \<and>
              (\<exists>m \<in> set (query w (Some (cacheQuery ms))). P1 r m w \<and>
                 (\<exists>l \<in> set (query w (Some (cacheQuery ls))). P2 m l w))) \<and>
           (\<forall>w' w. fst (runTreeQuery (snd (runTreeQuery tq w')) w) = fst (runTreeQuery tq w))"
proof -
  from fuel obtain k where k: "fuel = Suc (Suc (Suc (Suc k)))"
    by (metis add_2_eq_Suc le_Suc_ex numeral_Bit0 add.assoc)
  from chain_compiles[OF plain, of cacheQuery k ms P1 ls P2]
  obtain r m l where d: "r \<noteq> m" "r \<noteq> l" "m \<noteq> l" and
    c: "createTreeQuery cacheQuery fuel (rs1 @ QueryFilterNode ms P1 [QueryFilterNode ls P2 []] # rs2) =
        Some (Inr (chainPlan r m l P1 P2 (cacheQuery (rs1 @ rs2)) (cacheQuery ms) (cacheQuery ls)
                     :: ('e \<Rightarrow> 'e \<Rightarrow> ('h, 'e, 's) World \<Rightarrow> bool, 'h, 'e) TreeQuery))"
    unfolding k by blast
  let ?tq = "chainPlan r m l P1 P2 (cacheQuery (rs1 @ rs2)) (cacheQuery ms) (cacheQuery ls)
               :: ('e \<Rightarrow> 'e \<Rightarrow> ('h, 'e, 's) World \<Rightarrow> bool, 'h, 'e) TreeQuery"
  have sem: "\<forall>w x. x \<in> set (fst (runTreeQuery ?tq w)) \<longleftrightarrow>
              x \<in> set (query w (Some (cacheQuery (rs1 @ rs2)))) \<and>
              (\<exists>m \<in> set (query w (Some (cacheQuery ms))). P1 x m w \<and>
                 (\<exists>l \<in> set (query w (Some (cacheQuery ls))). P2 m l w))"
    unfolding chain_runs[OF d] by auto
  have again: "\<forall>w' w. fst (runTreeQuery (snd (runTreeQuery ?tq w')) w) = fst (runTreeQuery ?tq w)"
    by (simp add: rerun_same)
  show ?thesis
    by (rule exI[of _ ?tq]) (intro conjI c sem again)
qed

theorem chain_query_semantics_witness:
  "\<exists>tq. createTreeQuery exHash 4 exSpec = Some (Inr tq) \<and>
           (\<forall>w r. r \<in> set (fst (runTreeQuery tq w)) \<longleftrightarrow>
              r \<in> set (query w (Some (exHash [Trait 0]))) \<and>
              (\<exists>m \<in> set (query w (Some (exHash [Trait 1, Trait 2]))). exCond r m w \<and>
                 (\<exists>l \<in> set (query w (Some (exHash [Trait 3, Trait 4, Trait 5]))). exCond m l w))) \<and>
           (\<forall>w' w. fst (runTreeQuery (snd (runTreeQuery tq w')) w) = fst (runTreeQuery tq w))"
  using chain_query_semantics[of "[Trait 0]" "[]" 4 exHash "[Trait 1, Trait 2]" exCond
      "[Trait 3, Trait 4, Trait 5]" exCond]
  by (simp add: exSpec_def)

text \<open>
  C3 fails on the code. The specification \<open>createTreeQuery(a, F1(b, F2(c)), F3(d, F4(e)))\<close>
  has four filter nodes; the compiled plan has three edges, for \<open>F2\<close>, \<open>F3\<close> and \<open>F1\<close>: the
  nested filter node \<open>F4\<close> of the second sibling contributes none. The loop over
  \<open>childQueryObjects\<close> finds the shared array emptied by the first recursive call and stops.
\<close>

theorem sibling_subtree_dropped:
  "createTreeQueryFilter c2 [Trait c] = Inr (QueryFilterNode [Trait c] c2 []) \<and>
   createTreeQueryFilter c1 [Trait b, QueryFilterNode [Trait c] c2 []] =
     Inr (QueryFilterNode [Trait b] c1 [QueryFilterNode [Trait c] c2 []]) \<and>
   createTreeQueryFilter c4 [Trait e] = Inr (QueryFilterNode [Trait e] c4 []) \<and>
   createTreeQueryFilter c3 [Trait d, QueryFilterNode [Trait e] c4 []] =
     Inr (QueryFilterNode [Trait d] c3 [QueryFilterNode [Trait e] c4 []]) \<and>
   map_option (map_sum id (map filter' \<circ> edgesFlattened))
     (createTreeQuery cacheQuery 10
        [Trait a,
         QueryFilterNode [Trait b] c1 [QueryFilterNode [Trait c] c2 []],
         QueryFilterNode [Trait d] c3 [QueryFilterNode [Trait e] c4 []]]) =
   Some (Inr [c2, c3, c1])"
  unfolding numeral_fuel
  by (simp add: createTreeQueryFilter_builds createTreeQuery_def genId_def newObject_def
      initBuild_def Let_def setId_def pushFinalQuery_def pushComponent_def hashQueries_def
      linkTuple_def childrenOf_def)




text \<open>
  C5. When the loop has reached an edge \<open>e\<close> of \<open>edgesFlattened\<close> without an early return
  and the filter leaves \<open>e\<close> an empty parent list or an empty child list, the query
  returns the empty list, and the state it leaves is the one in which the two queries of
  \<open>e\<close> were computed: nothing of the edges after \<open>e\<close> is evaluated.
\<close>

theorem early_exit:
  assumes edges: "edgesFlattened tq = es1 @ e # es2"
    and reached: "forEdges es1 world (tq\<lparr>queriesComputed := {}, emptyResultsArr := []\<rparr>) = Inr s"
    and narrowed: "narrow e world s = (s', parents2, children2)"
    and empty: "parents2 = [] \<or> children2 = []"
  shows "runTreeQuery tq world = ([], s') \<and>
         s' = computeQuery world (childNode e) (computeQuery world (parentNode e) s)"
proof -
  have "keeps (touched es1) (reset tq) (stateOf (forEdges es1 world (reset tq)))"
    by (rule keeps_forEdges)
  then have "emptyResultsArr s = []"
    using reached by (simp add: reset_def stateOf_def keeps_def)
  moreover have s': "s' = computeQuery world (childNode e) (computeQuery world (parentNode e) s)"
    using narrowed by (simp add: narrow_def Let_def)
  ultimately have e: "emptyResultsArr s' = []"
    by (simp add: computeQuery_simps)
  have stop: "evalEdge e world s = Inl s'"
    using narrowed empty by (auto simp: evalEdge_def)
  have "forEdges (es1 @ e # es2) world (reset tq) = Inl s'"
    using reached stop by (simp add: forEdges_append reset_def)
  then show ?thesis
    using e edges s' by (simp add: runTreeQuery_reset)
qed

theorem early_exit_witness: "fst (runTreeQuery exPlan exWorldNoLeaf) = []"
proof -
  let ?e = "\<lparr>filter' = exCond, parentNode = 1, childNode = 2\<rparr>"
  let ?s = "exPlan\<lparr>queriesComputed := {}, emptyResultsArr := []\<rparr>"
  have 1: "edgesFlattened exPlan = [] @ ?e # [\<lparr>filter' = exCond, parentNode = 0, childNode = 1\<rparr>]"
    by (simp add: exPlan_def chainPlan_def)
  have 2: "forEdges [] exWorldNoLeaf ?s = Inr ?s"
    by simp
  have 3: "narrow ?e exWorldNoLeaf ?s =
      (fst (narrow ?e exWorldNoLeaf ?s), fst (snd (narrow ?e exWorldNoLeaf ?s)),
       snd (snd (narrow ?e exWorldNoLeaf ?s)))"
    by simp
  have 4: "fst (snd (narrow ?e exWorldNoLeaf ?s)) = [] \<or> snd (snd (narrow ?e exWorldNoLeaf ?s)) = []"
    by (simp add: narrow_def Let_def computeQuery_def setList_def nodeList_def nodeQuery_def
        childrenOf_def exPlan_def chainPlan_def exWorldNoLeaf_def queryFilter_eq)
  from early_exit[OF 1 2 3 4] show ?thesis
    by simp
qed

text \<open>
  C7. Take the candidate list of a node to be its \<open>updateList\<close> once its query has been
  computed in this run, and the store's answer to its query before that. Processing one
  edge, whether the loop goes on or returns early, leaves every node with a candidate
  list whose entities all were in its candidate list before; and the two lists the
  filter returns hold only entities of the lists it was given.
\<close>

theorem narrowing_monotonic:
  "set (candidates world (stateOf (evalEdge e world tq)) n) \<subseteq> set (candidates world tq n) \<and>
   set (fst (snd (narrow e world tq))) \<subseteq> set (nodeList (fst (narrow e world tq)) (parentNode e)) \<and>
   set (snd (snd (narrow e world tq))) \<subseteq> set (nodeList (fst (narrow e world tq)) (childNode e))"
  by (simp add: candidates_evalEdge narrow_def Let_def queryFilter_parents_subset
      queryFilter_children_subset)

text \<open>
  C8. \<open>createTreeQuery\<close> throws on the empty specification, whatever the fuel, and on a
  non-empty specification with no filter node at its top level (fuel 2 suffices): in
  both cases the result is the error and no query.
\<close>

theorem createTreeQuery_rejects:
  "createTreeQuery cacheQuery fuel [] = Some (Inl TreeQueryEmpty) \<and>
   ((\<forall>v \<in> set queryTree. \<not> isFilter v) \<and> queryTree \<noteq> [] \<and> 2 \<le> fuel \<longrightarrow>
      createTreeQuery cacheQuery fuel queryTree = Some (Inl NoFilter))"
proof (intro conjI impI)
  show "createTreeQuery cacheQuery fuel [] = Some (Inl TreeQueryEmpty)"
    by (simp add: createTreeQuery_def)
next
  assume a: "(\<forall>v \<in> set queryTree. \<not> isFilter v) \<and> queryTree \<noteq> [] \<and> 2 \<le> fuel"
  then obtain k where fuel: "fuel = Suc (Suc k)"
    by (metis add_2_eq_Suc le_Suc_ex)
  from a build_noFilter[of queryTree k False]
  obtain st' where "buildQueryRecursive fuel queryTree False None initBuild = Some st'" "filterWithTuple st' = []"
    unfolding fuel by blast
  with a show "createTreeQuery cacheQuery fuel queryTree = Some (Inl NoFilter)"
    by (simp add: createTreeQuery_def)
qed



theorem createTreeQuery_rejects_witness:
  "createTreeQuery exHash 2 [Trait 0, Trait 1] =
     (Some (Inl NoFilter) :: (error + (nat \<Rightarrow> nat \<Rightarrow> (nat, nat, unit) World \<Rightarrow> bool, nat, nat) TreeQuery) option)"
  by (rule createTreeQuery_rejects[THEN conjunct2, THEN mp]) simp

lemma createTreeQueryFilter_rejects_array:
  "\<exists>v \<in> set traits. isArray v \<Longrightarrow> createTreeQueryFilter condition traits = Inl SyntaxError"
  by (simp add: createTreeQueryFilter_def forTraits_array)


text \<open>
  C9 fails on the code at the top level. A filter constructor does throw at a raw array
  among its arguments (\<open>createTreeQueryFilter_rejects_array\<close>), but \<open>createTreeQuery\<close>
  has no such check: \<open>createTreeQuery([a], F(b))\<close> takes the array for a component of the
  root query and returns a query with one edge.
\<close>

theorem toplevel_array_compiles:
  "createTreeQueryFilter c [Trait b] = Inr (QueryFilterNode [Trait b] c []) \<and>
   map_option (map_sum id edgesFlattened)
     (createTreeQuery cacheQuery 10 [Array [Trait a], QueryFilterNode [Trait b] c []]) =
   Some (Inr [\<lparr>filter' = c, parentNode = 0, childNode = 1\<rparr>])"
  unfolding numeral_fuel
  by (simp add: createTreeQueryFilter_builds createTreeQuery_def genId_def newObject_def
      initBuild_def Let_def setId_def pushFinalQuery_def pushComponent_def hashQueries_def
      linkTuple_def childrenOf_def)


text \<open>
  C10. The result of a run does not depend on what an earlier run, in any world, with or
  without an early return, left in the query's state: running in \<open>w\<close> after a run in
  \<open>w'\<close> gives what running in \<open>w\<close> gives. With \<open>w' = w\<close>: two runs in succession give
  the same result.
\<close>

theorem runTreeQuery_no_stale_state:
  "fst (runTreeQuery (snd (runTreeQuery tq w')) w) = fst (runTreeQuery tq w)"
  using agree_result[OF reset_after_run[of tq w'], of w] by simp




end
